theory Spec2Isabelle
  imports Complex_Main "HOL-Library.Sublist"
begin

section \<open>Zoom control of the PDF renderer\<close>

text \<open>
  \<^verbatim>\<open>PdfRenderer.tsx\<close> keeps \<^verbatim>\<open>zoom\<close> (a number), \<^verbatim>\<open>zoomMode\<close> and
  \<^verbatim>\<open>containerWidth\<close> as component state. A JavaScript number is a binary64 value; it
  is modelled as the real it denotes, and an arithmetic operation of the source as the
  exact operation followed by rounding to the nearest binary64 value, ties to even.
\<close>

subsection \<open>Rounding to binary64\<close>

text \<open>Nearest integer, ties to the even one.\<close>

definition roundHalfEven :: "real \<Rightarrow> int" where
  "roundHalfEven y =
     (let f = \<lfloor>y\<rfloor>; d = y - of_int f
      in if d < 1 / 2 then f else if 1 / 2 < d then f + 1 else if even f then f else f + 1)"

text \<open>
  \<open>binade n x\<close> is the exponent \<open>e\<close> with \<open>2 powi e \<le> x < 2 powi (e + 1)\<close>, found by at
  most \<open>n\<close> halvings or doublings of a non-negative \<open>x\<close>; 1100 steps cover the exponents
  of binary64. Below \<open>2 powi (- 1022)\<close> the values are subnormal and share the exponent
  \<open>- 1022\<close>.
\<close>

fun binade :: "nat \<Rightarrow> real \<Rightarrow> int" where
  "binade 0 x = 0"
| "binade (Suc n) x =
     (if 2 \<le> x then binade n (x / 2) + 1
      else if x < 1 then binade n (2 * x) - 1
      else 0)"

definition expo :: "real \<Rightarrow> int" where
  "expo x = max (binade 1100 \<bar>x\<bar>) (- 1022)"

text \<open>The distance between neighbouring binary64 values around \<open>x\<close>: 53 significant bits.\<close>

definition ulp :: "real \<Rightarrow> real" where
  "ulp x = 2 powi (expo x - 52)"

text \<open>
  \<open>fl x\<close> is the binary64 value nearest to \<open>x\<close>. Magnitudes from \<open>2 powi 1024\<close> on, where
  binary64 has the infinities, are left as they are; no zoom computation reaches them.
\<close>

definition fl :: "real \<Rightarrow> real" where
  "fl x = (if 2 powi 1024 \<le> \<bar>x\<bar> then x else ulp x * of_int (roundHalfEven (x / ulp x)))"

subsection \<open>Zoom state and handlers\<close>

datatype zoomMode = Custom | PageFit

record zoom_state =
  zoom :: real
  zoomMode :: zoomMode
  containerWidth :: real

definition A4_WIDTH_PX :: real where
  "A4_WIDTH_PX = 794"

text \<open>The presets are dyadic, so the literals of the source denote them exactly.\<close>

definition ZOOM_PRESETS :: "real list" where
  "ZOOM_PRESETS = [0.5, 0.75, 1, 1.25, 1.5, 2, 3]"

text \<open>
  The updater passed to \<^verbatim>\<open>setZoom\<close> in \<^verbatim>\<open>handleZoomIn\<close>. The literal
  \<^verbatim>\<open>0.01\<close> is the binary64 value \<open>fl 0.01\<close>, and \<^verbatim>\<open>z + 0.01\<close> and
  \<^verbatim>\<open>z + 0.25\<close> are rounded sums.
\<close>

definition zoomInStep :: "real \<Rightarrow> real" where
  "zoomInStep z =
     (case find (\<lambda>p. p > fl (z + fl 0.01)) ZOOM_PRESETS of
        Some next \<Rightarrow> next
      | None \<Rightarrow> min (fl (z + 0.25)) 5)"

text \<open>The updater passed to \<^verbatim>\<open>setZoom\<close> in \<^verbatim>\<open>handleZoomOut\<close>, with the rounded
  differences \<^verbatim>\<open>z - 0.01\<close> and \<^verbatim>\<open>z - 0.25\<close>.\<close>

definition zoomOutStep :: "real \<Rightarrow> real" where
  "zoomOutStep z =
     (case find (\<lambda>p. p < fl (z - fl 0.01)) (rev ZOOM_PRESETS) of
        Some next \<Rightarrow> next
      | None \<Rightarrow> max (fl (z - 0.25)) 0.25)"

definition handleZoomIn :: "zoom_state \<Rightarrow> zoom_state" where
  "handleZoomIn s = s\<lparr>zoomMode := Custom, zoom := zoomInStep (zoom s)\<rparr>"

definition handleZoomOut :: "zoom_state \<Rightarrow> zoom_state" where
  "handleZoomOut s = s\<lparr>zoomMode := Custom, zoom := zoomOutStep (zoom s)\<rparr>"

text \<open>
  \<^verbatim>\<open>handleZoomChange(value)\<close>: the string \<^verbatim>\<open>"pageFit"\<close> is \<open>None\<close>, any other
  value is the number \<^verbatim>\<open>parseFloat(value)\<close>.
\<close>

definition handleZoomChange :: "real option \<Rightarrow> zoom_state \<Rightarrow> zoom_state" where
  "handleZoomChange v s =
     (case v of
        None \<Rightarrow> s\<lparr>zoomMode := PageFit\<rparr>
      | Some x \<Rightarrow> s\<lparr>zoomMode := Custom, zoom := x\<rparr>)"

text \<open>
  The \<^verbatim>\<open>ResizeObserver\<close> is connected only while the mode is page fit; its callback
  stores the observed content width.
\<close>

definition onResize :: "real \<Rightarrow> zoom_state \<Rightarrow> zoom_state" where
  "onResize w s = (if zoomMode s = PageFit then s\<lparr>containerWidth := w\<rparr> else s)"

text \<open>
  The value that scales the pages. The difference and the quotient of its page-fit branch
  are left unrounded: rounding changes neither their sign nor whether they are zero.
\<close>

definition effectiveZoom :: "zoom_state \<Rightarrow> real" where
  "effectiveZoom s =
     (if zoomMode s = PageFit \<and> containerWidth s > 0
      then (let padding = 48 in min ((containerWidth s - padding) / A4_WIDTH_PX) 2)
      else zoom s)"

datatype zoom_event = ZoomIn | ZoomOut | ZoomChange "real option" | Resized real

fun zoom_step :: "zoom_state \<Rightarrow> zoom_event \<Rightarrow> zoom_state" where
  "zoom_step s ZoomIn = handleZoomIn s"
| "zoom_step s ZoomOut = handleZoomOut s"
| "zoom_step s (ZoomChange v) = handleZoomChange v s"
| "zoom_step s (Resized w) = onResize w s"

text \<open>Initial state: \<^verbatim>\<open>useState(options?.zoom ?? 1)\<close>, mode page fit, width 0.\<close>

definition zoom_init :: "real option \<Rightarrow> zoom_state" where
  "zoom_init optZoom =
     \<lparr>zoom = (case optZoom of None \<Rightarrow> 1 | Some z \<Rightarrow> z), zoomMode = PageFit, containerWidth = 0\<rparr>"

definition zoom_run :: "real option \<Rightarrow> zoom_event list \<Rightarrow> zoom_state" where
  "zoom_run optZoom es = foldl zoom_step (zoom_init optZoom) es"

text \<open>
  The stepping rule as the specification words it: the nearest preset strictly above
  (below) the current multiplier, and the clamped fixed step when there is none.
\<close>

definition spec_zoom_in :: "real \<Rightarrow> real" where
  "spec_zoom_in z =
     (let above = filter (\<lambda>p. z < p) ZOOM_PRESETS
      in if above = [] then min (z + 0.25) 5 else Min (set above))"

definition spec_zoom_out :: "real \<Rightarrow> real" where
  "spec_zoom_out z =
     (let below = filter (\<lambda>p. p < z) ZOOM_PRESETS
      in if below = [] then max (z - 0.25) 0.25 else Max (set below))"

text \<open>Events under which the multiplier stays meaningful: an explicit zoom value is
  positive, an observed container width exceeds the fixed padding.\<close>

fun zoom_event_ok :: "zoom_event \<Rightarrow> bool" where
  "zoom_event_ok (ZoomChange (Some v)) = (0 < v)"
| "zoom_event_ok (Resized w) = (48 < w)"
| "zoom_event_ok _ = True"

section \<open>Strings\<close>

text \<open>
  JavaScript strings are modelled as \<^typ>\<open>string\<close>, a list of 8-bit characters read as
  the code units U+0000 to U+00FF. On these, \<^verbatim>\<open>toLowerCase\<close> maps A-Z and the
  Latin-1 capitals to their small letters, and \<^verbatim>\<open>trim\<close> strips tab, line feed,
  vertical tab, form feed, carriage return, space and no-break space.
\<close>

definition lower_char :: "char \<Rightarrow> char" where
  "lower_char c =
     (let n = (of_char c :: nat)
      in if (65 \<le> n \<and> n \<le> 90) \<or> (192 \<le> n \<and> n \<le> 214) \<or> (216 \<le> n \<and> n \<le> 222)
         then char_of (n + 32) else c)"

definition toLowerCase :: "string \<Rightarrow> string" where
  "toLowerCase s = map lower_char s"

definition isWhiteSpace :: "char \<Rightarrow> bool" where
  "isWhiteSpace c = ((of_char c :: nat) \<in> {9, 10, 11, 12, 13, 32, 160})"

definition trim :: "string \<Rightarrow> string" where
  "trim s = rev (dropWhile isWhiteSpace (rev (dropWhile isWhiteSpace s)))"

text \<open>\<^verbatim>\<open>s.slice(a, b)\<close> and \<^verbatim>\<open>s.slice(a)\<close> for non-negative indices.\<close>

definition slice :: "string \<Rightarrow> nat \<Rightarrow> nat \<Rightarrow> string" where
  "slice s a b = take (b - a) (drop a s)"

definition sliceFrom :: "string \<Rightarrow> nat \<Rightarrow> string" where
  "sliceFrom s a = drop a s"

text \<open>First position at which \<open>q\<close> occurs in \<open>t\<close>.\<close>

fun first_index :: "string \<Rightarrow> string \<Rightarrow> nat option" where
  "first_index q [] = (if q = [] then Some 0 else None)"
| "first_index q (c # t) =
     (if prefix q (c # t) then Some 0 else map_option Suc (first_index q t))"

text \<open>
  \<^verbatim>\<open>s.indexOf(q, pos)\<close>: the start position is clamped to the length of \<open>s\<close>; the
  result \<^verbatim>\<open>-1\<close> is \<open>None\<close>.
\<close>

definition indexOf :: "string \<Rightarrow> string \<Rightarrow> nat \<Rightarrow> nat option" where
  "indexOf s q pos =
     (let p = min pos (length s)
      in map_option (\<lambda>i. i + p) (first_index q (drop p s)))"

definition includesStr :: "string \<Rightarrow> string \<Rightarrow> bool" where
  "includesStr s q = (indexOf s q 0 \<noteq> None)"

fun join :: "string \<Rightarrow> string list \<Rightarrow> string" where
  "join sep [] = []"
| "join sep [x] = x"
| "join sep (x # y # ys) = x @ sep @ join sep (y # ys)"

text \<open>\<^verbatim>\<open>a % b\<close> on integers: the remainder takes the sign of the dividend.\<close>

definition js_rem :: "int \<Rightarrow> int \<Rightarrow> int" where
  "js_rem a b = sgn a * (\<bar>a\<bar> mod \<bar>b\<bar>)"

section \<open>Search state of the PDF renderer\<close>

text \<open>
  One asynchronous search of the \<^verbatim>\<open>useEffect\<close> on \<^verbatim>\<open>[searchQuery, numPages]\<close>: the
  captured query and page count, the loop variable, the local \<^verbatim>\<open>matches\<close> array,
  the \<^verbatim>\<open>cancelled\<close> flag of its closure and the state of its promise.
\<close>

datatype run_status = Pending | Fulfilled | Rejected

record search_run =
  run_query :: string
  run_numPages :: nat
  run_pageNum :: nat
  run_matches :: "nat list"
  run_cancelled :: bool
  run_status :: run_status

text \<open>
  What \<^verbatim>\<open>getPage(pageNum)\<close> followed by \<^verbatim>\<open>getTextContent()\<close> delivers for one page:
  a rejection, or the text items, each with an optional \<^verbatim>\<open>str\<close>.
\<close>

datatype extraction = Rejects | TextItems "string option list"

text \<open>
  The component state that search touches. \<open>runs\<close> holds every search started so far,
  oldest first, a run being identified by its position; \<open>cleanup\<close> is the run whose
  cancelling closure the effect returned last; \<open>scrolls\<close> lists the pages passed to
  \<^verbatim>\<open>scrollIntoView\<close>; \<open>commits\<close> lists the runs that published their matches;
  \<open>viewerApi\<close> is the API object that \<^verbatim>\<open>options.onViewerReady\<close> has received, given
  by the match list and the index that its \<^verbatim>\<open>nextMatch\<close> and \<^verbatim>\<open>prevMatch\<close> read,
  and \<open>None\<close> as long as \<^verbatim>\<open>viewerReadyCalledRef\<close> is unset.
\<close>

record pdf_state =
  searchQuery :: string
  numPages :: "nat option"
  pdfDocRef :: bool
  searchMatches :: "nat list"
  searchIndex :: int
  currentPage :: nat
  scrolls :: "nat list"
  runs :: "search_run list"
  cleanup :: "nat option"
  commits :: "nat list"
  viewerApi :: "(nat list \<times> int) option"

definition pdf_init :: pdf_state where
  "pdf_init =
     \<lparr>searchQuery = [], numPages = None, pdfDocRef = False, searchMatches = [],
      searchIndex = 0, currentPage = 1, scrolls = [], runs = [], cleanup = None,
      commits = [], viewerApi = None\<rparr>"

text \<open>\<^verbatim>\<open>pageRefs\<close> holds one element per rendered page, pages 1 to \<^verbatim>\<open>numPages\<close>.\<close>

definition hasPageRef :: "pdf_state \<Rightarrow> nat \<Rightarrow> bool" where
  "hasPageRef s page = (case numPages s of None \<Rightarrow> False | Some n \<Rightarrow> 1 \<le> page \<and> page \<le> n)"

definition scrollToPage :: "nat \<Rightarrow> pdf_state \<Rightarrow> pdf_state" where
  "scrollToPage page s =
     (if hasPageRef s page then s\<lparr>scrolls := scrolls s @ [page], currentPage := page\<rparr> else s)"

text \<open>\<^verbatim>\<open>searchMatches[i]\<close>, \<open>None\<close> for \<^verbatim>\<open>undefined\<close>.\<close>

definition matchAt :: "nat list \<Rightarrow> int \<Rightarrow> nat option" where
  "matchAt ms i = (if 0 \<le> i \<and> i < int (length ms) then Some (ms ! nat i) else None)"

definition scrollToMatch :: "nat option \<Rightarrow> pdf_state \<Rightarrow> pdf_state" where
  "scrollToMatch target s = (case target of None \<Rightarrow> s | Some page \<Rightarrow> scrollToPage page s)"

text \<open>
  \<^verbatim>\<open>nextMatch\<close> and \<^verbatim>\<open>prevMatch\<close> are built by \<^verbatim>\<open>useCallback\<close> with the
  dependencies \<^verbatim>\<open>searchMatches\<close>, \<^verbatim>\<open>searchIndex\<close> and \<^verbatim>\<open>scrollToPage\<close>: a callback
  reads the match list and the index of the render that built it, whatever the state is
  when it is called. \<open>nextMatch ms i\<close> is the callback of a render whose match list is
  \<open>ms\<close> and whose index is \<open>i\<close>; the index it sets and the scroll it requests take effect
  in the state \<open>s\<close> at the time of the call.
\<close>

definition nextMatch :: "nat list \<Rightarrow> int \<Rightarrow> pdf_state \<Rightarrow> pdf_state" where
  "nextMatch ms i s =
     (if length ms = 0 then s
      else let next = js_rem (i + 1) (int (length ms))
           in scrollToMatch (matchAt ms next) (s\<lparr>searchIndex := next\<rparr>))"

definition prevMatch :: "nat list \<Rightarrow> int \<Rightarrow> pdf_state \<Rightarrow> pdf_state" where
  "prevMatch ms i s =
     (if length ms = 0 then s
      else let prev = js_rem (i - 1 + int (length ms)) (int (length ms))
           in scrollToMatch (matchAt ms prev) (s\<lparr>searchIndex := prev\<rparr>))"

text \<open>
  The toolbar receives \<^verbatim>\<open>onSearchNext={nextMatch}\<close> and \<^verbatim>\<open>onSearchPrev={prevMatch}\<close>
  anew with every render, so a click calls the callback of the current render.
\<close>

definition onSearchNext :: "pdf_state \<Rightarrow> pdf_state" where
  "onSearchNext s = nextMatch (searchMatches s) (searchIndex s) s"

definition onSearchPrev :: "pdf_state \<Rightarrow> pdf_state" where
  "onSearchPrev s = prevMatch (searchMatches s) (searchIndex s) s"

text \<open>
  The effect that hands \<^verbatim>\<open>viewerApi\<close> to \<^verbatim>\<open>options.onViewerReady\<close>, run after a render
  in which that option is set: \<^verbatim>\<open>viewerReadyCalledRef\<close> lets it pass the object once
  only, namely the object of that render, whose \<^verbatim>\<open>nextMatch\<close> and \<^verbatim>\<open>prevMatch\<close> are
  the callbacks of that render.
\<close>

definition viewerReadyEffect :: "pdf_state \<Rightarrow> pdf_state" where
  "viewerReadyEffect s =
     (case viewerApi s of
        Some api \<Rightarrow> s
      | None \<Rightarrow> s\<lparr>viewerApi := Some (searchMatches s, searchIndex s)\<rparr>)"

text \<open>The host calls \<^verbatim>\<open>nextMatch()\<close> or \<^verbatim>\<open>prevMatch()\<close> on the object it was handed.\<close>

definition apiNextMatch :: "pdf_state \<Rightarrow> pdf_state" where
  "apiNextMatch s =
     (case viewerApi s of None \<Rightarrow> s | Some (ms, i) \<Rightarrow> nextMatch ms i s)"

definition apiPrevMatch :: "pdf_state \<Rightarrow> pdf_state" where
  "apiPrevMatch s =
     (case viewerApi s of None \<Rightarrow> s | Some (ms, i) \<Rightarrow> prevMatch ms i s)"

text \<open>The test applied to one page of the search loop.\<close>

definition pageMatches :: "string \<Rightarrow> string option list \<Rightarrow> bool" where
  "pageMatches query items =
     (let strs = map (\<lambda>item. case item of None \<Rightarrow> [] | Some str \<Rightarrow> str) items;
          joined = toLowerCase (join [] strs);
          joinedWithSpaces = toLowerCase (join '' '' strs)
      in includesStr joined query \<or> includesStr joinedWithSpaces query)"

text \<open>The cleanup function returned by the previous run of the effect, if any.\<close>

definition runCleanup :: "pdf_state \<Rightarrow> pdf_state" where
  "runCleanup s =
     (case cleanup s of
        None \<Rightarrow> s
      | Some k \<Rightarrow> s\<lparr>runs := (runs s)[k := (runs s ! k)\<lparr>run_cancelled := True\<rparr>],
                   cleanup := None\<rparr>)"

text \<open>A run as the effect starts it: at page 1, with an empty \<^verbatim>\<open>matches\<close> array.\<close>

definition new_run :: "string \<Rightarrow> nat \<Rightarrow> search_run" where
  "new_run query n =
     \<lparr>run_query = query, run_numPages = n, run_pageNum = 1, run_matches = [],
      run_cancelled = False, run_status = Pending\<rparr>"

text \<open>
  The body of the search effect up to the first \<^verbatim>\<open>await\<close>: either it clears the
  matches, or it starts a run at page 1 and returns the closure that cancels it.
\<close>

definition searchEffect :: "pdf_state \<Rightarrow> pdf_state" where
  "searchEffect s =
     (let query = toLowerCase (trim (searchQuery s))
      in case numPages s of
           None \<Rightarrow> s\<lparr>searchMatches := [], searchIndex := 0\<rparr>
         | Some n \<Rightarrow>
             if query = [] \<or> \<not> pdfDocRef s \<or> n = 0
             then s\<lparr>searchMatches := [], searchIndex := 0\<rparr>
             else s\<lparr>runs := runs s @ [new_run query n],
                    cleanup := Some (length (runs s))\<rparr>)"

text \<open>A state update re-runs the effect only when a dependency changed.\<close>

definition setSearchQuery :: "string \<Rightarrow> pdf_state \<Rightarrow> pdf_state" where
  "setSearchQuery q s =
     (if q = searchQuery s then s
      else searchEffect (runCleanup (s\<lparr>searchQuery := q\<rparr>)))"

definition handleDocumentLoadSuccess :: "nat \<Rightarrow> pdf_state \<Rightarrow> pdf_state" where
  "handleDocumentLoadSuccess n s =
     (if numPages s = Some n then s\<lparr>pdfDocRef := True\<rparr>
      else searchEffect (runCleanup (s\<lparr>pdfDocRef := True, numPages := Some n\<rparr>)))"

text \<open>The final block of the asynchronous function, guarded by the flag.\<close>

definition publish :: "nat \<Rightarrow> nat list \<Rightarrow> pdf_state \<Rightarrow> pdf_state" where
  "publish rid ms s =
     (let s' = s\<lparr>searchMatches := ms, searchIndex := 0, commits := commits s @ [rid]\<rparr>
      in if length ms > 0 then scrollToPage (hd ms) s' else s')"

text \<open>
  Run \<open>rid\<close> resumes when the extraction of its current page settles. A rejection
  rejects the promise of the asynchronous function, which nothing handles. Otherwise
  the page is tested, the loop variable advances, and after the last page the result is
  published unless the run was cancelled.
\<close>

definition resumeRun :: "nat \<Rightarrow> extraction \<Rightarrow> pdf_state \<Rightarrow> pdf_state" where
  "resumeRun rid ext s =
     (if rid < length (runs s) \<and> run_status (runs s ! rid) = Pending then
        (let r = runs s ! rid in
         case ext of
           Rejects \<Rightarrow> s\<lparr>runs := (runs s)[rid := r\<lparr>run_status := Rejected\<rparr>]\<rparr>
         | TextItems items \<Rightarrow>
             (let ms = (if pageMatches (run_query r) items
                        then run_matches r @ [run_pageNum r] else run_matches r);
                  r' = r\<lparr>run_matches := ms, run_pageNum := run_pageNum r + 1\<rparr>
              in if run_pageNum r' \<le> run_numPages r'
                 then s\<lparr>runs := (runs s)[rid := r']\<rparr>
                 else (let s' = s\<lparr>runs := (runs s)[rid := r'\<lparr>run_status := Fulfilled\<rparr>]\<rparr>
                       in if run_cancelled r' then s' else publish rid ms s')))
      else s)"

text \<open>
  The events of the search state: the query changes (through the toolbar or through
  \<^verbatim>\<open>setSearchQuery\<close> of the viewer API, which is the state setter itself), the
  document finishes loading, a page extraction settles, the toolbar's next and previous
  buttons are clicked, the viewer API is handed to the host, and the host calls
  \<^verbatim>\<open>nextMatch\<close> or \<^verbatim>\<open>prevMatch\<close> of the object it holds.
\<close>

datatype pdf_event =
    SetSearchQuery string
  | DocumentLoaded nat
  | Resume nat extraction
  | NextMatch
  | PrevMatch
  | ViewerReady
  | ApiNextMatch
  | ApiPrevMatch

fun pdf_step :: "pdf_state \<Rightarrow> pdf_event \<Rightarrow> pdf_state" where
  "pdf_step s (SetSearchQuery q) = setSearchQuery q s"
| "pdf_step s (DocumentLoaded n) = handleDocumentLoadSuccess n s"
| "pdf_step s (Resume rid ext) = resumeRun rid ext s"
| "pdf_step s NextMatch = onSearchNext s"
| "pdf_step s PrevMatch = onSearchPrev s"
| "pdf_step s ViewerReady = viewerReadyEffect s"
| "pdf_step s ApiNextMatch = apiNextMatch s"
| "pdf_step s ApiPrevMatch = apiPrevMatch s"

fun is_api_call :: "pdf_event \<Rightarrow> bool" where
  "is_api_call ApiNextMatch = True"
| "is_api_call ApiPrevMatch = True"
| "is_api_call _ = False"

definition pdf_run :: "pdf_event list \<Rightarrow> pdf_state" where
  "pdf_run es = foldl pdf_step pdf_init es"

section \<open>Search: invariants of the reachable states\<close>

definition run_ok :: "search_run \<Rightarrow> bool" where
  "run_ok r \<longleftrightarrow>
     sorted_wrt (<) (run_matches r)
     \<and> (\<forall>p\<in>set (run_matches r). 1 \<le> p \<and> p < run_pageNum r)
     \<and> 1 \<le> run_pageNum r
     \<and> run_pageNum r \<le> run_numPages r + 1
     \<and> (run_status r = Pending \<longrightarrow> run_pageNum r \<le> run_numPages r)"

definition cleanup_inv :: "pdf_state \<Rightarrow> bool" where
  "cleanup_inv s \<longleftrightarrow>
     (\<forall>k. cleanup s = Some k \<longrightarrow>
        Suc k = length (runs s)
        \<and> numPages s = Some (run_numPages (runs s ! k))
        \<and> run_query (runs s ! k) = toLowerCase (trim (searchQuery s)))
     \<and> (\<forall>i < length (runs s). cleanup s \<noteq> Some i \<longrightarrow> run_cancelled (runs s ! i))"

definition commits_inv :: "pdf_state \<Rightarrow> bool" where
  "commits_inv s \<longleftrightarrow>
     (\<forall>i\<in>set (commits s). i < length (runs s) \<and> run_status (runs s ! i) = Fulfilled)"

definition runs_inv :: "pdf_state \<Rightarrow> bool" where
  "runs_inv s \<longleftrightarrow> (\<forall>i < length (runs s). run_ok (runs s ! i))"

definition matches_inv :: "pdf_state \<Rightarrow> bool" where
  "matches_inv s \<longleftrightarrow>
     sorted_wrt (<) (searchMatches s) \<and> (\<forall>p\<in>set (searchMatches s). 1 \<le> p)"

definition index_inv :: "pdf_state \<Rightarrow> bool" where
  "index_inv s \<longleftrightarrow>
     0 \<le> searchIndex s
     \<and> (searchIndex s < int (length (searchMatches s)) \<or> searchIndex s = 0)"

text \<open>A search for ``Fee'' over three pages, the first and the third of which match.\<close>

definition nav_trace :: "pdf_event list" where
  "nav_trace =
     [DocumentLoaded 3, SetSearchQuery ''Fee'',
      Resume 0 (TextItems [Some ''Cof'', Some ''fee'']),
      Resume 0 (TextItems [Some ''tea'']),
      Resume 0 (TextItems [None, Some ''late fees''])]"

text \<open>
  The same search in a viewer whose host passes \<^verbatim>\<open>onViewerReady\<close> from the start, so
  that the viewer API is handed over after the first render.
\<close>

definition api_trace :: "pdf_event list" where
  "api_trace = ViewerReady # nav_trace"

text \<open>
  A host that passes \<^verbatim>\<open>onViewerReady\<close> only after that search has published, and a
  second search, for ``tea'', which matches the second page only.
\<close>

definition late_api_trace :: "pdf_event list" where
  "late_api_trace =
     nav_trace @
     [ViewerReady, SetSearchQuery ''tea'',
      Resume 1 (TextItems [Some ''Cof'', Some ''fee'']),
      Resume 1 (TextItems [Some ''tea'']),
      Resume 1 (TextItems [None, Some ''late fees''])]"

text \<open>
  A run that can no longer publish: it has not published, and it is cancelled or its
  promise is rejected. \<open>rejected_at\<close> also fixes where a rejected run stopped.
\<close>

definition retired :: "nat \<Rightarrow> pdf_state \<Rightarrow> bool" where
  "retired rid s \<longleftrightarrow>
     rid < length (runs s) \<and> rid \<notin> set (commits s)
     \<and> (run_cancelled (runs s ! rid) \<or> run_status (runs s ! rid) = Rejected)"

definition rejected_at :: "nat \<Rightarrow> nat \<Rightarrow> nat list \<Rightarrow> pdf_state \<Rightarrow> bool" where
  "rejected_at rid page ms s \<longleftrightarrow>
     rid < length (runs s) \<and> rid \<notin> set (commits s)
     \<and> run_status (runs s ! rid) = Rejected
     \<and> run_pageNum (runs s ! rid) = page \<and> run_matches (runs s ! rid) = ms"

text \<open>
  The scenario of a query typed and then replaced while its search is in flight: a
  search for ``market'' scans one of two pages; the query changes to ``budget''; both
  runs then receive their remaining pages.
\<close>

definition market_trace :: "pdf_event list" where
  "market_trace =
     [DocumentLoaded 2, SetSearchQuery ''market'',
      Resume 0 (TextItems [Some ''Market report''])]"

definition budget_events :: "pdf_event list" where
  "budget_events =
     [Resume 1 (TextItems [Some ''Market report'']),
      Resume 0 (TextItems [Some ''market and budget'']),
      Resume 1 (TextItems [Some ''market and budget''])]"

text \<open>The events that deliver the text of the given pages, in order, to run \<open>rid\<close>.\<close>

definition deliver :: "nat \<Rightarrow> (nat \<Rightarrow> string option list) \<Rightarrow> nat list \<Rightarrow> pdf_event list" where
  "deliver rid items_of pages = map (\<lambda>p. Resume rid (TextItems (items_of p))) pages"

text \<open>
  A two-page document searched for ``tea'': the extraction of page 1 is rejected, page 2
  would match. The second trace differs only in that page 1 delivers no text.
\<close>

definition reject_trace :: "pdf_event list" where
  "reject_trace =
     [DocumentLoaded 2, SetSearchQuery ''tea'', Resume 0 Rejects,
      Resume 0 (TextItems [Some ''green tea''])]"

definition blank_page_trace :: "pdf_event list" where
  "blank_page_trace =
     [DocumentLoaded 2, SetSearchQuery ''tea'', Resume 0 (TextItems []),
      Resume 0 (TextItems [Some ''green tea''])]"

section \<open>Text highlighting of the PDF renderer\<close>

definition dquote :: char where
  "dquote = CHR 0x22"

definition apostrophe :: char where
  "apostrophe = CHR 0x27"

text \<open>\<^verbatim>\<open>text.replace(/c/g, r)\<close> for a single character \<open>c\<close>.\<close>

definition replaceAll :: "char \<Rightarrow> string \<Rightarrow> string \<Rightarrow> string" where
  "replaceAll c r text = concat (map (\<lambda>x. if x = c then r else [x]) text)"

definition escapeHtml :: "string \<Rightarrow> string" where
  "escapeHtml text =
     replaceAll apostrophe ''&#039;''
       (replaceAll dquote ''&quot;''
         (replaceAll CHR ''>'' ''&gt;''
           (replaceAll CHR ''<'' ''&lt;''
             (replaceAll CHR ''&'' ''&amp;'' text))))"

datatype highlightPageText = HlNone | HlCurrent | HlPage | HlBoth

text \<open>
  Everything the memoised \<^verbatim>\<open>customTextRenderer\<close> closes over. The three style strings
  are the results of \<^verbatim>\<open>styleToInline\<close>; \<open>hl_highlightPageNumber\<close> is \<open>None\<close> unless the
  option is a number.
\<close>

record highlight_props =
  hl_searchQuery :: string
  hl_searchHighlightClassName :: string
  hl_searchHighlightStyleString :: string
  hl_searchActiveHighlightClassName :: string
  hl_searchActiveHighlightStyleString :: string
  hl_activeMatchPage :: "nat option"
  hl_highlightPageTextMode :: highlightPageText
  hl_highlightPageNumber :: "int option"
  hl_currentPage :: nat
  hl_highlightPageTextStyleString :: string

definition highlightPageSet :: "highlight_props \<Rightarrow> int list" where
  "highlightPageSet props =
     (if hl_highlightPageTextMode props = HlCurrent \<or> hl_highlightPageTextMode props = HlBoth
      then [int (hl_currentPage props)] else [])
     @ (case hl_highlightPageNumber props of
          Some n \<Rightarrow>
            if (hl_highlightPageTextMode props = HlPage \<or> hl_highlightPageTextMode props = HlBoth)
               \<and> n > 0
            then [n] else []
        | None \<Rightarrow> [])"

text \<open>The opening tag of a search hit and the closing tag.\<close>

definition hitOpen :: "string \<Rightarrow> string \<Rightarrow> string" where
  "hitOpen className style =
     ''<span class='' @ [dquote] @ className @ [dquote] @ '' style='' @ [dquote] @ style
       @ [dquote] @ ''>''"

definition spanClose :: string where
  "spanClose = ''</span>''"

definition pageOpen :: "string \<Rightarrow> string" where
  "pageOpen style = ''<span style='' @ [dquote] @ style @ [dquote] @ ''>''"

text \<open>
  The \<^verbatim>\<open>while (true)\<close> loop of the renderer. \<open>idx\<close> and \<open>result\<close> are its variables;
  \<open>tag\<close> is the opening tag, which does not change between iterations. The loop need not
  return, so its result is an option.
\<close>

partial_function (option) highlightLoop ::
  "string \<Rightarrow> string \<Rightarrow> string \<Rightarrow> nat \<Rightarrow> string \<Rightarrow> nat \<Rightarrow> string \<Rightarrow> string option" where
  "highlightLoop str lower queryLower qlen tag idx result =
     (case indexOf lower queryLower idx of
        None \<Rightarrow> Some (result @ escapeHtml (sliceFrom str idx))
      | Some found \<Rightarrow>
          highlightLoop str lower queryLower qlen tag (found + qlen)
            (result @ escapeHtml (slice str idx found) @ tag
               @ escapeHtml (slice str found (found + qlen)) @ spanClose))"

declare highlightLoop.simps [code]

definition hitClassName :: "highlight_props \<Rightarrow> bool \<Rightarrow> string" where
  "hitClassName props isActivePage =
     (if isActivePage
      then trim (hl_searchHighlightClassName props @ '' '' @ hl_searchActiveHighlightClassName props)
      else hl_searchHighlightClassName props)"

definition hitStyle :: "highlight_props \<Rightarrow> bool \<Rightarrow> string" where
  "hitStyle props isActivePage =
     (if isActivePage
      then join '';'' (filter (\<lambda>s. s \<noteq> [])
             [hl_searchHighlightStyleString props, hl_searchActiveHighlightStyleString props])
      else hl_searchHighlightStyleString props)"

text \<open>The function returned by \<^verbatim>\<open>customTextRenderer\<close>, applied to one text item.\<close>

definition textRenderer :: "highlight_props \<Rightarrow> string \<Rightarrow> nat option \<Rightarrow> string option" where
  "textRenderer props str pageNumber =
     (let query = trim (hl_searchQuery props);
          enableFullHighlight = (hl_highlightPageTextMode props \<noteq> HlNone);
          queryLower = toLowerCase query
      in if str = [] then Some []
         else
           let shouldHighlightAll =
                 (case pageNumber of
                    None \<Rightarrow> False
                  | Some pn \<Rightarrow> int pn \<in> set (highlightPageSet props));
               isActivePage =
                 (case pageNumber of
                    None \<Rightarrow> False
                  | Some pn \<Rightarrow> hl_activeMatchPage props = Some pn);
               body =
                 (if query \<noteq> []
                  then highlightLoop str (toLowerCase str) queryLower (length query)
                         (hitOpen (hitClassName props isActivePage) (hitStyle props isActivePage))
                         0 []
                  else Some (escapeHtml str))
           in case body of
                None \<Rightarrow> None
              | Some result \<Rightarrow>
                  if enableFullHighlight \<and> shouldHighlightAll
                  then Some (pageOpen (hl_highlightPageTextStyleString props) @ result @ spanClose)
                  else Some result)"

text \<open>\<^verbatim>\<open>customTextRenderer\<close> itself: \<^verbatim>\<open>undefined\<close> when there is nothing to highlight.\<close>

definition customTextRenderer ::
  "highlight_props \<Rightarrow> (string \<Rightarrow> nat option \<Rightarrow> string option) option" where
  "customTextRenderer props =
     (if trim (hl_searchQuery props) = [] \<and> hl_highlightPageTextMode props = HlNone
      then None else Some (textRenderer props))"

text \<open>
  How the emitted markup is read back: \<open>stripTags\<close> removes everything from a \<open><\<close> to
  the next \<open>>\<close>, \<open>decodeEntities\<close> replaces the five character references that
  \<^verbatim>\<open>escapeHtml\<close> produces, and \<open>textContent\<close> is the character data that remains.
\<close>

fun stripTags :: "bool \<Rightarrow> string \<Rightarrow> string" where
  "stripTags inTag [] = []"
| "stripTags inTag (c # cs) =
     (if inTag then (if c = CHR ''>'' then stripTags False cs else stripTags True cs)
      else if c = CHR ''<'' then stripTags True cs
      else c # stripTags False cs)"

function decodeEntities :: "string \<Rightarrow> string" where
  "decodeEntities [] = []"
| "decodeEntities (c # cs) =
     (if c = CHR ''&'' \<and> prefix ''amp;'' cs then CHR ''&'' # decodeEntities (drop 4 cs)
      else if c = CHR ''&'' \<and> prefix ''lt;'' cs then CHR ''<'' # decodeEntities (drop 3 cs)
      else if c = CHR ''&'' \<and> prefix ''gt;'' cs then CHR ''>'' # decodeEntities (drop 3 cs)
      else if c = CHR ''&'' \<and> prefix ''quot;'' cs then dquote # decodeEntities (drop 5 cs)
      else if c = CHR ''&'' \<and> prefix ''#039;'' cs then apostrophe # decodeEntities (drop 5 cs)
      else c # decodeEntities cs)"
  by pat_completeness auto
termination
  by (relation "measure length") auto

definition textContent :: "string \<Rightarrow> string" where
  "textContent markup = decodeEntities (stripTags False markup)"

text \<open>The configured class names and styles do not themselves close a tag.\<close>

definition attrs_closed :: "highlight_props \<Rightarrow> bool" where
  "attrs_closed props \<longleftrightarrow>
     CHR ''>'' \<notin> set (hl_searchHighlightClassName props)
     \<and> CHR ''>'' \<notin> set (hl_searchActiveHighlightClassName props)
     \<and> CHR ''>'' \<notin> set (hl_searchHighlightStyleString props)
     \<and> CHR ''>'' \<notin> set (hl_searchActiveHighlightStyleString props)
     \<and> CHR ''>'' \<notin> set (hl_highlightPageTextStyleString props)"

text \<open>A sample configuration: default class names, page 2 active, query ``Tea''.\<close>

definition sample_props :: highlight_props where
  "sample_props =
     \<lparr>hl_searchQuery = '' Tea '',
      hl_searchHighlightClassName = ''document-viewer-search-hit'',
      hl_searchHighlightStyleString = [],
      hl_searchActiveHighlightClassName = ''document-viewer-search-hit-active'',
      hl_searchActiveHighlightStyleString = ''background-color:orange'',
      hl_activeMatchPage = Some 2,
      hl_highlightPageTextMode = HlNone,
      hl_highlightPageNumber = None,
      hl_currentPage = 1,
      hl_highlightPageTextStyleString = ''background-color:#daf0f6''\<rparr>"

text \<open>The replacement that \<^verbatim>\<open>escapeHtml\<close> makes for a single character.\<close>

definition escapeChar :: "char \<Rightarrow> string" where
  "escapeChar c =
     (if c = CHR ''&'' then ''&amp;''
      else if c = CHR ''<'' then ''&lt;''
      else if c = CHR ''>'' then ''&gt;''
      else if c = dquote then ''&quot;''
      else if c = apostrophe then ''&#039;''
      else [c])"

text \<open>
  \<open>reads_as markup txt\<close>: read from outside a tag, \<open>markup\<close> leaves the character data
  \<open>txt\<close> and ends outside a tag.
\<close>

definition reads_as :: "string \<Rightarrow> string \<Rightarrow> bool" where
  "reads_as markup txt \<longleftrightarrow>
     (\<forall>rest. stripTags False (markup @ rest) = txt @ stripTags False rest)"

section \<open>Conversion of office documents through the worker\<close>

text \<open>Decimal digits of a number, as a template literal prints \<^verbatim>\<open>res.status\<close>.\<close>

definition digit_char :: "nat \<Rightarrow> char" where
  "digit_char d = char_of (48 + d)"

function show_nat :: "nat \<Rightarrow> string" where
  "show_nat n = (if n < 10 then [digit_char n] else show_nat (n div 10) @ [digit_char (n mod 10)])"
  by pat_completeness auto
termination
  by (relation "measure id") auto

declare show_nat.simps [simp del]

text \<open>
  What \<^verbatim>\<open>convertViaWorker\<close> reads from the \<^verbatim>\<open>Response\<close>: status and status text, the
  \<^verbatim>\<open>Content-Type\<close> header (\<open>None\<close> when absent), the body as text, the size of the body
  as a blob, and the outcome of \<^verbatim>\<open>res.json()\<close>.
\<close>

datatype json_body = JsonSyntaxError string | JsonUrl string | JsonWithoutUrl

record response =
  res_status :: nat
  res_statusText :: string
  res_contentType :: "string option"
  res_text :: string
  res_blobSize :: nat
  res_json :: json_body

text \<open>\<^verbatim>\<open>fetch\<close> rejects with an error, or resolves with a response.\<close>

datatype fetch_outcome = FetchRejects string | Responds response

definition res_ok :: "response \<Rightarrow> bool" where
  "res_ok res \<longleftrightarrow> 200 \<le> res_status res \<and> res_status res \<le> 299"

text \<open>\<^verbatim>\<open>res.headers.get("Content-Type") ?? ""\<close>.\<close>

definition contentTypeOf :: "response \<Rightarrow> string" where
  "contentTypeOf res = (case res_contentType res of None \<Rightarrow> [] | Some c \<Rightarrow> c)"

text \<open>The resolved value: the PDF URL and, when the URL was created here, the URL that
  \<^verbatim>\<open>revoke\<close> releases.\<close>

record conversion =
  pdfUrl :: string
  revoke :: "string option"

text \<open>
  \<^verbatim>\<open>convertViaWorker\<close> after the request has been sent. \<open>objectUrl\<close> is what
  \<^verbatim>\<open>URL.createObjectURL\<close> returns for the blob. \<open>Inl\<close> carries the message of the
  thrown \<^verbatim>\<open>Error\<close>.
\<close>

definition convertViaWorker :: "string \<Rightarrow> fetch_outcome \<Rightarrow> string + conversion" where
  "convertViaWorker objectUrl outcome =
     (case outcome of
        FetchRejects message \<Rightarrow> Inl message
      | Responds res \<Rightarrow>
          if \<not> res_ok res then
            Inl (''Conversion failed: '' @ show_nat (res_status res) @ '' ''
                 @ (if res_text res \<noteq> [] then res_text res else res_statusText res)
                 @ ''. Check conversion worker URL and CORS.'')
          else
            let contentType = contentTypeOf res in
            if includesStr contentType ''application/pdf'' then
              (if res_blobSize res = 0
               then Inl ''Conversion failed: worker returned empty PDF.''
               else Inr \<lparr>pdfUrl = objectUrl, revoke = Some objectUrl\<rparr>)
            else if includesStr contentType ''application/json'' then
              (case res_json res of
                 JsonUrl url \<Rightarrow> Inr \<lparr>pdfUrl = url, revoke = None\<rparr>
               | JsonWithoutUrl \<Rightarrow> Inl ''Conversion response missing url''
               | JsonSyntaxError message \<Rightarrow> Inl message)
            else Inl (''Unexpected response type: '' @ contentType))"

text \<open>
  The state of \<^verbatim>\<open>DocumentViewer\<close> that conversion touches. Each run of the conversion
  effect that starts a conversion has its own \<^verbatim>\<open>cancelled\<close> flag; a run is identified
  by its position in \<open>conv_runs\<close>. \<open>errorCalls\<close> lists the calls of
  \<^verbatim>\<open>onConversionError\<close>, each with the run that made it and the message; \<open>revoked\<close>
  lists the released object URLs.
\<close>

record conv_run =
  conv_cancelled :: bool
  conv_settled :: bool

record viewer_state =
  convertedPdfUrl :: "string option"
  conversionError :: "string option"
  convertedPdfUrlRevokeRef :: "string option"
  conv_runs :: "conv_run list"
  conv_cleanup :: "nat option"
  errorCalls :: "(nat \<times> string) list"
  revoked :: "string list"

definition viewer_init :: viewer_state where
  "viewer_init =
     \<lparr>convertedPdfUrl = None, conversionError = None, convertedPdfUrlRevokeRef = None,
      conv_runs = [], conv_cleanup = None, errorCalls = [], revoked = []\<rparr>"

text \<open>The cleanup returned by the conversion effect: \<^verbatim>\<open>cancelled = true\<close>.\<close>

definition conversionCleanup :: "viewer_state \<Rightarrow> viewer_state" where
  "conversionCleanup s =
     (case conv_cleanup s of
        None \<Rightarrow> s
      | Some k \<Rightarrow> s\<lparr>conv_runs := (conv_runs s)[k := (conv_runs s ! k)\<lparr>conv_cancelled := True\<rparr>],
                   conv_cleanup := None\<rparr>)"

text \<open>\<^verbatim>\<open>convertedPdfUrlRevokeRef.current?.(); convertedPdfUrlRevokeRef.current = null\<close>.\<close>

definition releaseConverted :: "viewer_state \<Rightarrow> viewer_state" where
  "releaseConverted s =
     (case convertedPdfUrlRevokeRef s of
        None \<Rightarrow> s
      | Some url \<Rightarrow> s\<lparr>revoked := revoked s @ [url], convertedPdfUrlRevokeRef := None\<rparr>)"

text \<open>The effect on \<^verbatim>\<open>[src, rendererKey]\<close> that forgets the previous conversion.\<close>

definition resetConversion :: "viewer_state \<Rightarrow> viewer_state" where
  "resetConversion s = (releaseConverted s)\<lparr>conversionError := None, convertedPdfUrl := None\<rparr>"

text \<open>
  The body of the conversion effect. \<open>converts\<close> says whether the guard lets it pass
  and the worker is the strategy: an office document given as a blob, a resolved MIME
  type, a worker URL and no \<^verbatim>\<open>onRequestPdfConversion\<close>.
\<close>

definition conversionEffect :: "bool \<Rightarrow> viewer_state \<Rightarrow> viewer_state" where
  "conversionEffect converts s =
     (if converts
      then s\<lparr>conv_runs := conv_runs s @ [\<lparr>conv_cancelled = False, conv_settled = False\<rparr>],
             conv_cleanup := Some (length (conv_runs s))\<rparr>
      else s)"

text \<open>
  The \<^verbatim>\<open>then\<close> and \<^verbatim>\<open>catch\<close> handlers attached to the promise of run \<open>rid\<close>.
  \<open>hasCallback\<close> says whether \<^verbatim>\<open>onConversionError\<close> was given.
\<close>

definition conversionSettles ::
  "bool \<Rightarrow> nat \<Rightarrow> string + conversion \<Rightarrow> viewer_state \<Rightarrow> viewer_state" where
  "conversionSettles hasCallback rid result s =
     (if rid < length (conv_runs s) \<and> \<not> conv_settled (conv_runs s ! rid) then
        (let cancelled = conv_cancelled (conv_runs s ! rid);
             s' = s\<lparr>conv_runs := (conv_runs s)[rid := (conv_runs s ! rid)\<lparr>conv_settled := True\<rparr>]\<rparr>
         in case result of
              Inr c \<Rightarrow>
                if \<not> cancelled
                then s'\<lparr>convertedPdfUrlRevokeRef :=
                          (case revoke c of None \<Rightarrow> convertedPdfUrlRevokeRef s' | Some u \<Rightarrow> Some u),
                        convertedPdfUrl := Some (pdfUrl c)\<rparr>
                else (case revoke c of None \<Rightarrow> s' | Some u \<Rightarrow> s'\<lparr>revoked := revoked s' @ [u]\<rparr>)
            | Inl message \<Rightarrow>
                if \<not> cancelled
                then s'\<lparr>conversionError := Some message,
                        errorCalls := errorCalls s' @ (if hasCallback then [(rid, message)] else [])\<rparr>
                else s')
      else s)"

text \<open>
  Events: the source or renderer key changes (both effects re-run), another dependency
  of the conversion effect changes, the component unmounts, the worker request of a run
  settles.
\<close>

datatype viewer_event =
    SourceChanged bool
  | DependencyChanged bool
  | Unmounted
  | WorkerSettles nat string fetch_outcome

fun viewer_step :: "bool \<Rightarrow> viewer_state \<Rightarrow> viewer_event \<Rightarrow> viewer_state" where
  "viewer_step cb s (SourceChanged converts) =
     conversionEffect converts (resetConversion (conversionCleanup s))"
| "viewer_step cb s (DependencyChanged converts) =
     conversionEffect converts (conversionCleanup s)"
| "viewer_step cb s Unmounted = releaseConverted (conversionCleanup s)"
| "viewer_step cb s (WorkerSettles rid objectUrl outcome) =
     conversionSettles cb rid (convertViaWorker objectUrl outcome) s"

definition viewer_run :: "bool \<Rightarrow> viewer_event list \<Rightarrow> viewer_state" where
  "viewer_run cb es = foldl (viewer_step cb) viewer_init es"

text \<open>The responses that the contract counts as failures.\<close>

definition failure_response :: "response \<Rightarrow> bool" where
  "failure_response res \<longleftrightarrow>
     \<not> res_ok res
     \<or> (let contentType = contentTypeOf res
        in (includesStr contentType ''application/pdf'' \<and> res_blobSize res = 0)
           \<or> (\<not> includesStr contentType ''application/pdf''
               \<and> \<not> includesStr contentType ''application/json''))"

text \<open>The worker answers with status 500 and the body ``bad file''.\<close>

definition bad_file_response :: response where
  "bad_file_response =
     \<lparr>res_status = 500, res_statusText = ''Internal Server Error'',
      res_contentType = Some ''text/plain'', res_text = ''bad file'', res_blobSize = 8,
      res_json = JsonSyntaxError ''Unexpected token b in JSON at position 0''\<rparr>"

text \<open>Every recorded call belongs to a settled run.\<close>

definition calls_settled :: "viewer_state \<Rightarrow> bool" where
  "calls_settled s \<longleftrightarrow>
     (\<forall>c\<in>set (errorCalls s). fst c < length (conv_runs s) \<and> conv_settled (conv_runs s ! fst c))"

text \<open>
  A conversion is started, the source changes before the worker answers, and the answer
  to the first request is the failure above.
\<close>

definition superseded_failure_trace :: "viewer_event list" where
  "superseded_failure_trace =
     [SourceChanged True, SourceChanged True,
      WorkerSettles 0 ''blob:1'' (Responds bad_file_response)]"

section \<open>Format resolution\<close>

datatype RendererKey = Pdf | PdfOcr | Docx | OfficePdf | Unsupported

text \<open>
  The three tables of \<^verbatim>\<open>FormatRouter.ts\<close> are object literals, so \<^verbatim>\<open>TABLE[key]\<close> finds
  the own properties and, for any other key, what the object inherits from
  \<^verbatim>\<open>Object.prototype\<close>. \<open>Own v\<close> is an own property, \<open>Inherited name\<close> the inherited
  member of that name (a function or object, hence truthy), \<open>None\<close> is \<^verbatim>\<open>undefined\<close>.
\<close>

datatype 'a member = Own 'a | Inherited string

definition OBJECT_PROTOTYPE :: "string list" where
  "OBJECT_PROTOTYPE =
     [''constructor'', ''hasOwnProperty'', ''isPrototypeOf'', ''propertyIsEnumerable'',
      ''toLocaleString'', ''toString'', ''valueOf'', ''__proto__'',
      ''__defineGetter__'', ''__defineSetter__'', ''__lookupGetter__'', ''__lookupSetter__'']"

definition property :: "(string \<times> 'a) list \<Rightarrow> string \<Rightarrow> 'a member option" where
  "property obj key =
     (case map_of obj key of
        Some v \<Rightarrow> Some (Own v)
      | None \<Rightarrow> if key \<in> set OBJECT_PROTOTYPE then Some (Inherited key) else None)"

definition MIME_TO_RENDERER :: "(string \<times> RendererKey) list" where
  "MIME_TO_RENDERER =
     [(''application/pdf'', Pdf),
      (''application/vnd.openxmlformats-officedocument.wordprocessingml.document'', Docx),
      (''application/vnd.openxmlformats-officedocument.presentationml.presentation'', OfficePdf),
      (''application/vnd.ms-powerpoint'', OfficePdf),
      (''application/msword'', OfficePdf)]"

definition EXT_TO_RENDERER :: "(string \<times> RendererKey) list" where
  "EXT_TO_RENDERER =
     [(''pdf'', Pdf), (''docx'', Docx), (''doc'', OfficePdf), (''pptx'', OfficePdf),
      (''ppt'', OfficePdf)]"

definition EXT_TO_MIME :: "(string \<times> string) list" where
  "EXT_TO_MIME =
     [(''pdf'', ''application/pdf''),
      (''docx'', ''application/vnd.openxmlformats-officedocument.wordprocessingml.document''),
      (''doc'', ''application/msword''),
      (''pptx'', ''application/vnd.openxmlformats-officedocument.presentationml.presentation''),
      (''ppt'', ''application/vnd.ms-powerpoint'')]"

text \<open>A document source: a URL string, or a blob with its \<^verbatim>\<open>type\<close>.\<close>

datatype DocumentSource = UrlSource string | BlobSource string

text \<open>\<^verbatim>\<open>s.split(".").pop()\<close>: what follows the last dot, or all of \<open>s\<close>.\<close>

definition lastSegment :: "string \<Rightarrow> string" where
  "lastSegment s = rev (takeWhile (\<lambda>c. c \<noteq> CHR ''.'') (rev s))"

text \<open>
  The extension both functions compute from a URL source. \<open>pathnameOf src\<close> is the
  \<^verbatim>\<open>pathname\<close> of \<^verbatim>\<open>new URL(src, "https://example.com")\<close>, \<open>None\<close> when the
  constructor throws, in which case the \<^verbatim>\<open>catch\<close> branch splits \<open>src\<close> itself.
\<close>

definition extensionOf :: "(string \<Rightarrow> string option) \<Rightarrow> string \<Rightarrow> string" where
  "extensionOf pathnameOf src =
     toLowerCase (lastSegment (case pathnameOf src of Some pathname \<Rightarrow> pathname | None \<Rightarrow> src))"

definition inferMimeType ::
  "(string \<Rightarrow> string option) \<Rightarrow> DocumentSource \<Rightarrow> string member option" where
  "inferMimeType pathnameOf src =
     (case src of
        UrlSource url \<Rightarrow>
          (let ext = extensionOf pathnameOf url
           in if ext \<noteq> [] then property EXT_TO_MIME ext else None)
      | BlobSource type \<Rightarrow> if type \<noteq> [] then Some (Own type) else None)"

text \<open>
  \<^verbatim>\<open>MIME_TO_RENDERER[resolvedMime]\<close> guarded by the truthiness of \<^verbatim>\<open>resolvedMime\<close>. An
  inherited member used as a key is converted to its source text, which names no
  property.
\<close>

definition rendererOfMime :: "string member option \<Rightarrow> RendererKey member option" where
  "rendererOfMime resolvedMime =
     (case resolvedMime of
        Some (Own mime) \<Rightarrow> if mime \<noteq> [] then property MIME_TO_RENDERER mime else None
      | _ \<Rightarrow> None)"

text \<open>\<^verbatim>\<open>if (key === "pdf" && enableOCR) key = "pdf-ocr"\<close>.\<close>

definition withOCR :: "bool \<Rightarrow> RendererKey member \<Rightarrow> RendererKey member" where
  "withOCR enableOCR key = (if key = Own Pdf \<and> enableOCR then Own PdfOcr else key)"

record selection =
  rendererKey :: "RendererKey member"
  mimeType :: "string member option"

definition getRendererKey ::
  "(string \<Rightarrow> string option) \<Rightarrow> DocumentSource \<Rightarrow> string option \<Rightarrow> bool \<Rightarrow> selection" where
  "getRendererKey pathnameOf src mimeTypeArg enableOCR =
     (let resolvedMime =
            (case mimeTypeArg of Some m \<Rightarrow> Some (Own m) | None \<Rightarrow> inferMimeType pathnameOf src)
      in case rendererOfMime resolvedMime of
           Some key \<Rightarrow> \<lparr>rendererKey = withOCR enableOCR key, mimeType = resolvedMime\<rparr>
         | None \<Rightarrow>
             (case src of
                UrlSource url \<Rightarrow>
                  (let ext = extensionOf pathnameOf url
                   in case (if ext \<noteq> [] then property EXT_TO_RENDERER ext else None) of
                        Some key \<Rightarrow>
                          \<lparr>rendererKey = withOCR enableOCR key,
                           mimeType = (case property EXT_TO_MIME ext of
                                         Some m \<Rightarrow> Some m | None \<Rightarrow> resolvedMime)\<rparr>
                      | None \<Rightarrow> \<lparr>rendererKey = Own Unsupported, mimeType = resolvedMime\<rparr>)
              | BlobSource type \<Rightarrow>
                  (case (if type \<noteq> [] then property MIME_TO_RENDERER type else None) of
                     Some key \<Rightarrow>
                       \<lparr>rendererKey = withOCR enableOCR key, mimeType = Some (Own type)\<rparr>
                   | None \<Rightarrow> \<lparr>rendererKey = Own Unsupported, mimeType = resolvedMime\<rparr>)))"

text \<open>A string that is used as a key without reaching \<^verbatim>\<open>Object.prototype\<close>.\<close>

definition plain_key :: "string \<Rightarrow> bool" where
  "plain_key key \<longleftrightarrow> key \<notin> set OBJECT_PROTOTYPE"

text \<open>
  For a relative reference without dots in its directory part, the pathname is the
  reference after a slash; enough of the URL parser to run the examples.
\<close>

definition simple_pathname :: "string \<Rightarrow> string option" where
  "simple_pathname src = Some (CHR ''/'' # src)"

section \<open>External links\<close>

definition EXTERNAL_LINK_PROTOCOLS :: "string list" where
  "EXTERNAL_LINK_PROTOCOLS = [''http:'', ''https:'', ''mailto:'']"

text \<open>
  \<open>protocolOf href\<close> is the \<^verbatim>\<open>protocol\<close> of \<^verbatim>\<open>new URL(href, window.location.href)\<close>,
  \<open>None\<close> when the constructor throws.
\<close>

definition isExternalLinkHref :: "(string \<Rightarrow> string option) \<Rightarrow> string \<Rightarrow> bool" where
  "isExternalLinkHref protocolOf href =
     (if href = [] then False
      else case protocolOf href of
             None \<Rightarrow> False
           | Some protocol \<Rightarrow> protocol \<in> set EXTERNAL_LINK_PROTOCOLS)"

text \<open>
  The click listener on the viewer root. The target either has no enclosing anchor, or
  an anchor with an optional \<^verbatim>\<open>href\<close> attribute. The listener either returns without
  touching the event, or prevents the default action, stops propagation and opens the
  href in a new browsing context.
\<close>

datatype click_target = NoAnchor | Anchor "string option"

datatype click_outcome = DefaultNavigation | OpenedInNewContext string

definition onClick :: "(string \<Rightarrow> string option) \<Rightarrow> click_target \<Rightarrow> click_outcome" where
  "onClick protocolOf target =
     (case target of
        NoAnchor \<Rightarrow> DefaultNavigation
      | Anchor attr \<Rightarrow>
          (let href = (case attr of None \<Rightarrow> [] | Some h \<Rightarrow> h)
           in if \<not> isExternalLinkHref protocolOf href then DefaultNavigation
              else OpenedInNewContext href))"

text \<open>
  The part of URL resolution that decides the protocol: a reference that begins with a
  scheme keeps it, any other reference is relative and takes the scheme of the base.
  Failures of the parser after the scheme are left out.
\<close>

definition isSchemeChar :: "char \<Rightarrow> bool" where
  "isSchemeChar c =
     (let n = (of_char c :: nat)
      in (65 \<le> n \<and> n \<le> 90) \<or> (97 \<le> n \<and> n \<le> 122) \<or> (48 \<le> n \<and> n \<le> 57)
         \<or> c = CHR ''+'' \<or> c = CHR ''-'' \<or> c = CHR ''.'')"

definition isAlpha :: "char \<Rightarrow> bool" where
  "isAlpha c = (let n = (of_char c :: nat) in (65 \<le> n \<and> n \<le> 90) \<or> (97 \<le> n \<and> n \<le> 122))"

definition schemeOf :: "string \<Rightarrow> string option" where
  "schemeOf s =
     (case s of
        [] \<Rightarrow> None
      | c # cs \<Rightarrow>
          if isAlpha c \<and> prefix '':'' (dropWhile isSchemeChar s)
          then Some (toLowerCase (takeWhile isSchemeChar s) @ '':'')
          else None)"

definition urlProtocol :: "string \<Rightarrow> string \<Rightarrow> string option" where
  "urlProtocol base href =
     (case schemeOf href of Some protocol \<Rightarrow> Some protocol | None \<Rightarrow> schemeOf base)"

section \<open>Zoom: theorems\<close>

lemma find_ascending_Min:
  "sorted xs \<Longrightarrow> find P xs = Some x \<Longrightarrow> x = Min {y \<in> set xs. P y}"
proof (induction xs)
  case Nil then show ?case by simp
next
  case (Cons a xs)
  show ?case
  proof (cases "P a")
    case True
    with Cons.prems have "x = a" by simp
    moreover have "Min {y \<in> set (a # xs). P y} = a"
      using True Cons.prems(1) by (intro Min_eqI) auto
    ultimately show ?thesis by simp
  next
    case False
    with Cons.prems have f: "find P xs = Some x" by simp
    have "{y \<in> set (a # xs). P y} = {y \<in> set xs. P y}" using False by auto
    with Cons.IH f Cons.prems(1) show ?thesis by simp
  qed
qed

lemma find_descending_Max:
  "sorted_wrt (\<ge>) xs \<Longrightarrow> find P xs = Some x \<Longrightarrow> x = Max {y \<in> set xs. P y}"
proof (induction xs)
  case Nil then show ?case by simp
next
  case (Cons a xs)
  show ?case
  proof (cases "P a")
    case True
    with Cons.prems have "x = a" by simp
    moreover have "Max {y \<in> set (a # xs). P y} = a"
      using True Cons.prems(1) by (intro Max_eqI) auto
    ultimately show ?thesis by simp
  next
    case False
    with Cons.prems have f: "find P xs = Some x" by simp
    have "{y \<in> set (a # xs). P y} = {y \<in> set xs. P y}" using False by auto
    with Cons.IH f Cons.prems(1) show ?thesis by simp
  qed
qed

lemma presets_ascending: "sorted ZOOM_PRESETS"
  by (simp add: ZOOM_PRESETS_def)

lemma presets_descending: "sorted_wrt (\<ge>) (rev ZOOM_PRESETS)"
  by (simp add: ZOOM_PRESETS_def)

subsection \<open>Rounding\<close>

lemma roundHalfEven_of_int: "roundHalfEven (of_int n) = n"
  by (simp add: roundHalfEven_def)

lemma roundHalfEven_range:
  "\<lfloor>y\<rfloor> \<le> roundHalfEven y \<and> roundHalfEven y \<le> \<lfloor>y\<rfloor> + 1"
  by (simp add: roundHalfEven_def Let_def)

lemma roundHalfEven_mono:
  assumes "y \<le> y'"
  shows "roundHalfEven y \<le> roundHalfEven y'"
proof (cases "\<lfloor>y\<rfloor> = \<lfloor>y'\<rfloor>")
  case True
  then show ?thesis using assms by (simp add: roundHalfEven_def Let_def)
next
  case False
  have "\<lfloor>y\<rfloor> \<le> \<lfloor>y'\<rfloor>" using assms by (rule floor_mono)
  with False have "\<lfloor>y\<rfloor> + 1 \<le> \<lfloor>y'\<rfloor>" by simp
  then show ?thesis
    using roundHalfEven_range [of y] roundHalfEven_range [of y'] by linarith
qed

lemma roundHalfEven_minus: "roundHalfEven (- y) = - roundHalfEven y"
proof (cases "y = of_int \<lfloor>y\<rfloor>")
  case True
  then obtain n where "y = of_int n" ..
  then have "- y = of_int (- n)" by simp
  then show ?thesis using \<open>y = of_int n\<close> roundHalfEven_of_int by metis
next
  case False
  then have lt: "of_int \<lfloor>y\<rfloor> < y" using of_int_floor_le [of y] by linarith
  have "y < of_int \<lfloor>y\<rfloor> + 1" by linarith
  then have fl: "\<lfloor>- y\<rfloor> = - \<lfloor>y\<rfloor> - 1"
    using lt by (intro floor_unique) (simp_all, linarith)
  show ?thesis
    using lt by (auto simp: roundHalfEven_def Let_def fl)
qed

lemma pow2_step: "(2::real) powi (e + 1) = 2 powi e * 2"
  by (simp add: power_int_add)

lemma pow2_down: "(2::real) powi (- int n) = 2 powi (- int (Suc n)) * 2"
proof -
  have e: "- int n = - int (Suc n) + 1" by simp
  show ?thesis by (subst e) (rule pow2_step)
qed

lemma pow2_le_one: "(2::real) powi (- int n) \<le> 1"
  by (simp add: power_int_minus_divide)

text \<open>Within its fuel, \<open>binade\<close> finds the power of two at or below \<open>x\<close>.\<close>

lemma binade_spec:
  "0 < x \<Longrightarrow> 2 powi (- int n) \<le> x \<Longrightarrow> x < 2 powi (int n + 1) \<Longrightarrow>
     2 powi (binade n x) \<le> x \<and> x < 2 powi (binade n x + 1)"
proof (induction n arbitrary: x)
  case 0
  then show ?case by simp
next
  case (Suc n)
  show ?case
  proof (cases "2 \<le> x")
    case True
    have "(2::real) powi (- int n) \<le> 1" by (rule pow2_le_one)
    then have a: "2 powi (- int n) \<le> x / 2" using True by simp
    have "x < 2 powi (int n + 1) * 2" using Suc.prems(3) by (simp add: power_int_add)
    then have b: "x / 2 < 2 powi (int n + 1)" by simp
    have "0 < x / 2" using True by simp
    from Suc.IH [OF this a b]
    show ?thesis using True by (simp add: power_int_add)
  next
    case False
    show ?thesis
    proof (cases "x < 1")
      case True
      have a: "2 powi (- int n) \<le> 2 * x" using Suc.prems(2) pow2_down [of n] by linarith
      have "(2::real) \<le> 2 powi (int n + 1)" by (simp add: power_int_add)
      then have b: "2 * x < 2 powi (int n + 1)" using True by linarith
      have "0 < 2 * x" using Suc.prems(1) by simp
      from Suc.IH [OF this a b]
      have ih: "2 powi (binade n (2 * x)) \<le> 2 * x" "2 * x < 2 powi (binade n (2 * x) + 1)"
        by simp_all
      have s1: "(2::real) powi (binade n (2 * x)) = 2 powi (binade n (2 * x) - 1) * 2"
        using pow2_step [of "binade n (2 * x) - 1"] by simp
      note s2 = pow2_step [of "binade n (2 * x)"]
      have "2 powi (binade n (2 * x) - 1) \<le> x" using ih(1) s1 by linarith
      moreover have "x < 2 powi (binade n (2 * x))" using ih(2) s2 by linarith
      ultimately show ?thesis using True \<open>\<not> 2 \<le> x\<close> by simp
    next
      case False
      with \<open>\<not> 2 \<le> x\<close> show ?thesis by simp
    qed
  qed
qed

lemma binade_small:
  "0 \<le> x \<Longrightarrow> x < 2 powi (- int n) \<Longrightarrow> binade n x = - int n"
proof (induction n arbitrary: x)
  case 0
  then show ?case by simp
next
  case (Suc n)
  note h = pow2_down [of n]
  have "(2::real) powi (- int n) \<le> 1" by (rule pow2_le_one)
  with h Suc.prems have x1: "x < 1" by linarith
  have "2 * x < 2 powi (- int n)" using h Suc.prems(2) by linarith
  moreover have "0 \<le> 2 * x" using Suc.prems(1) by simp
  ultimately have "binade n (2 * x) = - int n" by (rule Suc.IH [rotated])
  then show ?case using x1 by simp
qed

lemma expo_spec:
  assumes "0 < x" and "x < 2 powi 1024"
  shows "x < 2 powi (expo x + 1) \<and> (2 powi (expo x) \<le> x \<or> expo x = - 1022)
       \<and> - 1022 \<le> expo x \<and> expo x \<le> 1023"
proof (cases "x < 2 powi (- 1100)")
  case True
  then have "binade 1100 x = - 1100"
    using binade_small [of x 1100] assms(1) by simp
  then have e: "expo x = - 1022" using assms(1) by (simp add: expo_def)
  have "(2::real) powi (- 1100) \<le> 2 powi (- 1021)"
    by (rule power_int_increasing) simp_all
  with True e show ?thesis by simp
next
  case False
  have "(2::real) powi 1024 \<le> 2 powi (int 1100 + 1)"
    by (rule power_int_increasing) simp_all
  with assms(2) have hi: "x < 2 powi (int 1100 + 1)" by linarith
  from False have lo: "2 powi (- int 1100) \<le> x" by simp
  from binade_spec [OF assms(1) lo hi]
  have b: "2 powi (binade 1100 x) \<le> x" "x < 2 powi (binade 1100 x + 1)" by simp_all
  have b_hi: "binade 1100 x \<le> 1023"
  proof (rule ccontr)
    assume "\<not> binade 1100 x \<le> 1023"
    then have "(2::real) powi 1024 \<le> 2 powi (binade 1100 x)"
      by (intro power_int_increasing) simp_all
    with b(1) assms(2) show False by linarith
  qed
  show ?thesis
  proof (cases "- 1022 \<le> binade 1100 x")
    case True
    then have "expo x = binade 1100 x" using assms(1) by (simp add: expo_def)
    with b b_hi True show ?thesis by simp
  next
    case False
    then have e: "expo x = - 1022" using assms(1) by (simp add: expo_def)
    from False have "(2::real) powi (binade 1100 x + 1) \<le> 2 powi (- 1021)"
      by (intro power_int_increasing) simp_all
    with b(2) e show ?thesis by simp
  qed
qed

lemma expo_unique:
  assumes "0 < x" and "2 powi e \<le> x" and "x < 2 powi (e + 1)"
    and "- 1022 \<le> e" and "e \<le> 1023"
  shows "expo x = e"
proof -
  have "(2::real) powi (e + 1) \<le> 2 powi 1024"
    using assms(5) by (intro power_int_increasing) simp_all
  with assms(3) have x: "x < 2 powi 1024" by linarith
  note ex = expo_spec [OF assms(1) x]
  have "\<not> e + 1 \<le> expo x"
  proof
    assume a: "e + 1 \<le> expo x"
    then have "expo x \<noteq> - 1022" using assms(4) by linarith
    with ex have "2 powi (expo x) \<le> x" by blast
    moreover have "(2::real) powi (e + 1) \<le> 2 powi (expo x)"
      using a by (intro power_int_increasing) simp_all
    ultimately show False using assms(3) by linarith
  qed
  moreover have "\<not> expo x + 1 \<le> e"
  proof
    assume a: "expo x + 1 \<le> e"
    then have "(2::real) powi (expo x + 1) \<le> 2 powi e"
      by (intro power_int_increasing) simp_all
    with ex assms(2) show False by linarith
  qed
  ultimately show ?thesis by linarith
qed

lemma expo_abs: "expo \<bar>x\<bar> = expo x"
  by (simp add: expo_def)

lemma ulp_pos: "0 < ulp x"
  by (simp add: ulp_def)

lemma ulp_minus: "ulp (- x) = ulp x"
  by (simp add: ulp_def expo_def)

lemma ulp_scale: "ulp x * 2 ^ 52 = 2 powi (expo x)" "ulp x * 2 ^ 53 = 2 powi (expo x + 1)"
proof -
  have "(2::real) powi (expo x - 52 + 52) = 2 powi (expo x - 52) * 2 powi 52"
    by (rule power_int_add) simp
  then show "ulp x * 2 ^ 52 = 2 powi (expo x)" by (simp add: ulp_def)
  have "(2::real) powi (expo x - 52 + 53) = 2 powi (expo x - 52) * 2 powi 53"
    by (rule power_int_add) simp
  then show "ulp x * 2 ^ 53 = 2 powi (expo x + 1)" by (simp add: ulp_def add.commute)
qed

lemma fl_minus: "fl (- x) = - fl x"
  by (simp add: fl_def ulp_minus roundHalfEven_minus)

lemma fl_zero: "fl 0 = 0"
  by (simp add: fl_def roundHalfEven_def)

text \<open>A positive value is rounded within its binade.\<close>

lemma fl_range:
  assumes "0 < x" and "x < 2 powi 1024"
  shows "fl x \<le> 2 powi (expo x + 1)"
    and "0 \<le> fl x"
    and "2 powi (expo x) \<le> x \<Longrightarrow> 2 powi (expo x) \<le> fl x"
proof -
  have f: "fl x = ulp x * of_int (roundHalfEven (x / ulp x))"
    using assms by (simp add: fl_def)
  from expo_spec [OF assms] have "x < 2 powi (expo x + 1)" by simp
  then have "x < ulp x * 2 ^ 53" by (simp only: ulp_scale)
  then have "x / ulp x \<le> of_int (2 ^ 53)"
    using ulp_pos [of x] by (simp add: field_simps)
  from roundHalfEven_mono [OF this]
  have "roundHalfEven (x / ulp x) \<le> 2 ^ 53" by (simp only: roundHalfEven_of_int)
  then have "(of_int (roundHalfEven (x / ulp x)) :: real) \<le> of_int (2 ^ 53)"
    by (simp only: of_int_le_iff)
  then have "ulp x * of_int (roundHalfEven (x / ulp x)) \<le> ulp x * 2 ^ 53"
    using ulp_pos [of x] by simp
  then show "fl x \<le> 2 powi (expo x + 1)" by (simp only: f ulp_scale)
  have "(0::real) \<le> x / ulp x" using assms(1) ulp_pos [of x] by simp
  then have "of_int 0 \<le> x / ulp x" by simp
  from roundHalfEven_mono [OF this]
  have "0 \<le> roundHalfEven (x / ulp x)" by (simp only: roundHalfEven_of_int)
  then show "0 \<le> fl x" using ulp_pos [of x] by (simp add: f)
  assume "2 powi (expo x) \<le> x"
  then have "ulp x * 2 ^ 52 \<le> x" by (simp only: ulp_scale)
  then have "of_int (2 ^ 52) \<le> x / ulp x"
    using ulp_pos [of x] by (simp add: field_simps)
  from roundHalfEven_mono [OF this]
  have "2 ^ 52 \<le> roundHalfEven (x / ulp x)" by (simp only: roundHalfEven_of_int)
  then have "(of_int (2 ^ 52) :: real) \<le> of_int (roundHalfEven (x / ulp x))"
    by (simp only: of_int_le_iff)
  then have "ulp x * 2 ^ 52 \<le> ulp x * of_int (roundHalfEven (x / ulp x))"
    using ulp_pos [of x] by simp
  then show "2 powi (expo x) \<le> fl x" by (simp only: f ulp_scale)
qed

lemma fl_mono_pos:
  assumes "0 < x" and "x \<le> y"
  shows "fl x \<le> fl y"
proof (cases "2 powi 1024 \<le> x")
  case True
  then show ?thesis using assms by (simp add: fl_def)
next
  case False
  then have x: "x < 2 powi 1024" by simp
  note ex = expo_spec [OF assms(1) x]
  show ?thesis
  proof (cases "2 powi 1024 \<le> y")
    case True
    then have "fl y = y" using assms by (simp add: fl_def)
    moreover have "(2::real) powi (expo x + 1) \<le> 2 powi 1024"
      using ex by (intro power_int_increasing) simp_all
    ultimately show ?thesis using fl_range(1) [OF assms(1) x] True by linarith
  next
    case False
    then have y: "y < 2 powi 1024" by simp
    have y0: "0 < y" using assms by linarith
    note ey = expo_spec [OF y0 y]
    have le: "expo x \<le> expo y"
    proof (rule ccontr)
      assume "\<not> expo x \<le> expo y"
      then have lt: "expo y + 1 \<le> expo x" by simp
      then have "expo x \<noteq> - 1022" using ey by linarith
      with ex have "2 powi (expo x) \<le> x" by blast
      moreover have "(2::real) powi (expo y + 1) \<le> 2 powi (expo x)"
        using lt by (intro power_int_increasing) simp_all
      ultimately show False using ey assms(2) by linarith
    qed
    show ?thesis
    proof (cases "expo x = expo y")
      case True
      then have u: "ulp x = ulp y" by (simp add: ulp_def)
      have "x / ulp y \<le> y / ulp y"
        using assms(2) ulp_pos [of y] by (simp add: divide_right_mono)
      from roundHalfEven_mono [OF this]
      have "(of_int (roundHalfEven (x / ulp y)) :: real) \<le> of_int (roundHalfEven (y / ulp y))"
        by (simp only: of_int_le_iff)
      then have "ulp y * of_int (roundHalfEven (x / ulp y))
          \<le> ulp y * of_int (roundHalfEven (y / ulp y))"
        using ulp_pos [of y] by simp
      then show ?thesis using x y assms(1) y0 by (simp add: fl_def u)
    next
      case False
      with le have lt: "expo x + 1 \<le> expo y" by simp
      then have "expo y \<noteq> - 1022" using ex by linarith
      with ey have "2 powi (expo y) \<le> y" by blast
      from fl_range(3) [OF y0 y this] have "2 powi (expo y) \<le> fl y" .
      moreover have "(2::real) powi (expo x + 1) \<le> 2 powi (expo y)"
        using lt by (intro power_int_increasing) simp_all
      ultimately show ?thesis using fl_range(1) [OF assms(1) x] by linarith
    qed
  qed
qed

lemma fl_nonneg: "0 \<le> x \<Longrightarrow> 0 \<le> fl x"
proof (cases "x = 0")
  case True
  then show ?thesis by (simp add: fl_zero)
next
  case False
  assume "0 \<le> x"
  with False have x0: "0 < x" by simp
  show ?thesis
  proof (cases "2 powi 1024 \<le> x")
    case True
    then show ?thesis using x0 by (simp add: fl_def)
  next
    case False
    then show ?thesis using fl_range(2) [OF x0] by simp
  qed
qed

text \<open>Rounding is monotone.\<close>

lemma fl_mono:
  assumes "x \<le> y"
  shows "fl x \<le> fl y"
proof (cases "0 < x")
  case True
  then show ?thesis using assms by (rule fl_mono_pos)
next
  case False
  then have x: "x \<le> 0" by simp
  then have fx: "fl x \<le> 0" using fl_nonneg [of "- x"] by (simp add: fl_minus)
  show ?thesis
  proof (cases "0 \<le> y")
    case True
    then show ?thesis using fx fl_nonneg [of y] by linarith
  next
    case False
    then have "0 < - y" "- y \<le> - x" using assms by simp_all
    then have "fl (- y) \<le> fl (- x)" by (rule fl_mono_pos)
    then show ?thesis by (simp add: fl_minus)
  qed
qed

text \<open>Rounding of a value whose binade is known.\<close>

lemma fl_normal:
  assumes "2 powi e \<le> \<bar>x\<bar>" and "\<bar>x\<bar> < 2 powi (e + 1)" and "- 1022 \<le> e" and "e \<le> 1023"
  shows "fl x = 2 powi (e - 52) * of_int (roundHalfEven (x / 2 powi (e - 52)))"
proof -
  have "(0::real) < 2 powi e" by simp
  with assms(1) have pos: "0 < \<bar>x\<bar>" by linarith
  have "expo \<bar>x\<bar> = e" using pos assms by (rule expo_unique)
  then have u: "ulp x = 2 powi (e - 52)" by (simp add: ulp_def expo_abs)
  have "(2::real) powi (e + 1) \<le> 2 powi 1024"
    using assms(4) by (intro power_int_increasing) simp_all
  with assms(2) have "\<not> 2 powi 1024 \<le> \<bar>x\<bar>" by linarith
  then show ?thesis by (simp add: fl_def u)
qed

lemma fl_one: "fl 1 = 1"
  using fl_normal [of 0 1] by (simp add: roundHalfEven_def)

text \<open>The binary64 value of the literal \<^verbatim>\<open>0.01\<close>.\<close>

lemma fl_tolerance: "fl (1 / 100) = 5764607523034235 / 576460752303423488"
  using fl_normal [of "- 7" "1 / 100"] by (simp add: roundHalfEven_def)

lemma fl_tolerance_bounds: "0 \<le> fl 0.01" "fl 0.01 \<le> 0.25"
  by (simp_all add: fl_tolerance)

lemma fl_add_ge:
  assumes "fl z = z" and "0 \<le> d"
  shows "z \<le> fl (z + d)"
  using fl_mono [of z "z + d"] assms by simp

lemma fl_sub_le:
  assumes "fl z = z" and "0 \<le> d"
  shows "fl (z - d) \<le> z"
  using fl_mono [of "z - d" z] assms by simp

subsection \<open>Stepping\<close>

lemma zoomInStep_Min:
  "zoomInStep z =
     (if \<exists>p\<in>set ZOOM_PRESETS. fl (z + fl 0.01) < p
      then Min {p \<in> set ZOOM_PRESETS. fl (z + fl 0.01) < p}
      else min (fl (z + 0.25)) 5)"
proof (cases "find (\<lambda>p. p > fl (z + fl 0.01)) ZOOM_PRESETS")
  case None
  then have "\<not> (\<exists>p\<in>set ZOOM_PRESETS. fl (z + fl 0.01) < p)"
    by (auto simp: find_None_iff)
  with None show ?thesis by (simp add: zoomInStep_def)
next
  case (Some x)
  then have "\<exists>p\<in>set ZOOM_PRESETS. fl (z + fl 0.01) < p"
    by (metis find_None_iff option.distinct(1))
  moreover have "x = Min {p \<in> set ZOOM_PRESETS. fl (z + fl 0.01) < p}"
    using find_ascending_Min [OF presets_ascending Some] by simp
  ultimately show ?thesis using Some by (simp add: zoomInStep_def)
qed

lemma zoomOutStep_Max:
  "zoomOutStep z =
     (if \<exists>p\<in>set ZOOM_PRESETS. p < fl (z - fl 0.01)
      then Max {p \<in> set ZOOM_PRESETS. p < fl (z - fl 0.01)}
      else max (fl (z - 0.25)) 0.25)"
proof (cases "find (\<lambda>p. p < fl (z - fl 0.01)) (rev ZOOM_PRESETS)")
  case None
  then have "\<not> (\<exists>p\<in>set ZOOM_PRESETS. p < fl (z - fl 0.01))"
    by (auto simp: find_None_iff)
  with None show ?thesis by (simp add: zoomOutStep_def)
next
  case (Some x)
  then have "\<exists>p\<in>set (rev ZOOM_PRESETS). p < fl (z - fl 0.01)"
    by (metis find_None_iff option.distinct(1))
  then have ex: "\<exists>p\<in>set ZOOM_PRESETS. p < fl (z - fl 0.01)" by simp
  have "x = Max {p \<in> set (rev ZOOM_PRESETS). p < fl (z - fl 0.01)}"
    using find_descending_Max [OF presets_descending Some] by simp
  then have "x = Max {p \<in> set ZOOM_PRESETS. p < fl (z - fl 0.01)}" by simp
  with ex Some show ?thesis by (simp add: zoomOutStep_def)
qed

lemma zoomInStep_bounds:
  assumes "fl z = z" and "z \<le> 5"
  shows "z \<le> zoomInStep z \<and> zoomInStep z \<le> 5"
proof -
  define t where "t = fl (z + fl 0.01)"
  define u where "u = fl (z + 0.25)"
  have t: "z \<le> t"
    unfolding t_def using assms(1) fl_tolerance_bounds(1) by (rule fl_add_ge)
  have u: "z \<le> u"
    unfolding u_def using assms(1) by (rule fl_add_ge) simp
  have "zoomInStep z =
      (case find (\<lambda>p. p > t) ZOOM_PRESETS of Some next \<Rightarrow> next | None \<Rightarrow> min u 5)"
    by (simp only: zoomInStep_def t_def u_def)
  then show ?thesis using t u assms(2)
    by (auto simp: ZOOM_PRESETS_def min_def)
qed

lemma zoomOutStep_bounds:
  assumes "fl z = z" and "0.25 \<le> z"
  shows "zoomOutStep z \<le> z \<and> 0.25 \<le> zoomOutStep z"
proof -
  define t where "t = fl (z - fl 0.01)"
  define u where "u = fl (z - 0.25)"
  have t: "t \<le> z"
    unfolding t_def using assms(1) fl_tolerance_bounds(1) by (rule fl_sub_le)
  have u: "u \<le> z"
    unfolding u_def using assms(1) by (rule fl_sub_le) simp
  have "zoomOutStep z =
      (case find (\<lambda>p. p < t) (rev ZOOM_PRESETS) of Some next \<Rightarrow> next | None \<Rightarrow> max u 0.25)"
    by (simp only: zoomOutStep_def t_def u_def)
  then show ?thesis using t u assms(2)
    by (auto simp: ZOOM_PRESETS_def max_def)
qed

lemma zoomInStep_pos: "0 < zoomInStep z"
proof -
  define t where "t = fl (z + fl 0.01)"
  define u where "u = fl (z + 0.25)"
  have step: "zoomInStep z =
      (case find (\<lambda>p. p > t) ZOOM_PRESETS of Some next \<Rightarrow> next | None \<Rightarrow> min u 5)"
    by (simp only: zoomInStep_def t_def u_def)
  have u: "0 < u" if "3 \<le> t"
  proof -
    have "\<not> z + fl 0.01 \<le> 1"
    proof
      assume "z + fl 0.01 \<le> 1"
      then have "t \<le> fl 1" unfolding t_def by (rule fl_mono)
      with that show False by (simp add: fl_one)
    qed
    then have "1 \<le> z + 0.25" using fl_tolerance_bounds(2) by linarith
    then have "fl 1 \<le> u" unfolding u_def by (rule fl_mono)
    then show ?thesis by (simp add: fl_one)
  qed
  show ?thesis
  proof (cases "3 \<le> t")
    case True
    with u show ?thesis unfolding step by (auto simp: ZOOM_PRESETS_def min_def)
  next
    case False
    then show ?thesis unfolding step by (auto simp: ZOOM_PRESETS_def)
  qed
qed

lemma zoomOutStep_pos: "0 < zoomOutStep z"
  by (auto simp: zoomOutStep_def ZOOM_PRESETS_def max_def)

text \<open>
  C6 (as the code has it). For every binary64 multiplier \<open>z\<close> in \<open>[0.25, 5]\<close>, with the sums
  and differences rounded to binary64: zoom-in returns the smallest preset greater than
  \<open>z + 0.01\<close> when one exists and \<open>min (z + 0.25) 5\<close> otherwise; zoom-out returns the largest
  preset less than \<open>z - 0.01\<close> when one exists and \<open>max (z - 0.25) 0.25\<close> otherwise. Zoom-in
  never decreases and zoom-out never increases the multiplier, and both results stay in
  \<open>[0.25, 5]\<close>.
\<close>

theorem zoom_stepping_with_tolerance:
  assumes "fl z = z" and "0.25 \<le> z" and "z \<le> 5"
  shows "zoomInStep z =
           (if \<exists>p\<in>set ZOOM_PRESETS. fl (z + fl 0.01) < p
            then Min {p \<in> set ZOOM_PRESETS. fl (z + fl 0.01) < p}
            else min (fl (z + 0.25)) 5)
       \<and> zoomOutStep z =
           (if \<exists>p\<in>set ZOOM_PRESETS. p < fl (z - fl 0.01)
            then Max {p \<in> set ZOOM_PRESETS. p < fl (z - fl 0.01)}
            else max (fl (z - 0.25)) 0.25)
       \<and> z \<le> zoomInStep z \<and> zoomOutStep z \<le> z
       \<and> 0.25 \<le> zoomInStep z \<and> zoomInStep z \<le> 5
       \<and> 0.25 \<le> zoomOutStep z \<and> zoomOutStep z \<le> 5"
proof -
  note i = zoomInStep_bounds [OF assms(1) assms(3)]
  note out = zoomOutStep_bounds [OF assms(1) assms(2)]
  have "0.25 \<le> zoomInStep z" using i assms(2) by linarith
  moreover have "zoomOutStep z \<le> 5" using out assms(3) by linarith
  ultimately show ?thesis
    using zoomInStep_Min [of z] zoomOutStep_Max [of z] i out by blast
qed

lemma fl_sum_at_one: "fl (1 + fl (1 / 100)) = 4548635623644201 / 4503599627370496"
  using fl_normal [of 0 "1 + 5764607523034235 / 576460752303423488"]
  by (simp add: fl_tolerance roundHalfEven_def)

lemma fl_difference_at_one: "fl (1 - fl (1 / 100)) = 4458563631096791 / 4503599627370496"
  using fl_normal [of "- 1" "1 - 5764607523034235 / 576460752303423488"]
  by (simp add: fl_tolerance roundHalfEven_def)

theorem zoom_stepping_with_tolerance_witness:
  "fl 1 = 1 \<and> (0.25::real) \<le> 1 \<and> (1::real) \<le> 5
   \<and> zoomInStep 1 = Min {p \<in> set ZOOM_PRESETS. fl (1 + fl 0.01) < p}
   \<and> zoomOutStep 1 = Max {p \<in> set ZOOM_PRESETS. p < fl (1 - fl 0.01)}
   \<and> zoomInStep 1 = 1.25 \<and> zoomOutStep 1 = 0.75"
proof -
  have lo: "(0.25::real) \<le> 1" and hi: "(1::real) \<le> 5" by simp_all
  have ex_in: "\<exists>p\<in>set ZOOM_PRESETS. fl (1 + fl 0.01) < p"
    by (simp add: ZOOM_PRESETS_def fl_sum_at_one)
  have ex_out: "\<exists>p\<in>set ZOOM_PRESETS. p < fl (1 - fl 0.01)"
    by (simp add: ZOOM_PRESETS_def fl_difference_at_one)
  have "zoomInStep 1 = 1.25" "zoomOutStep 1 = 0.75"
    by (simp_all add: zoomInStep_def zoomOutStep_def ZOOM_PRESETS_def
        fl_sum_at_one fl_difference_at_one)
  then show ?thesis
    using zoom_stepping_with_tolerance [OF fl_one lo hi] ex_in ex_out fl_one by simp
qed

text \<open>
  The specification's wording of C6 compares the presets with \<open>z\<close> itself. At the binary64
  value \<open>z = 127/128\<close> the smallest preset strictly greater than \<open>z\<close> is 1, while the code,
  which looks for a preset above \<open>z + 0.01\<close>, steps to 1.25.
\<close>

lemma fl_sum_below_one:
  "fl (127 / 128 + fl (1 / 100)) = 4513451251555369 / 4503599627370496"
  using fl_normal [of 0 "127 / 128 + 5764607523034235 / 576460752303423488"]
  by (simp add: fl_tolerance roundHalfEven_def)

lemma fl_below_one: "fl (127 / 128) = 127 / 128"
  using fl_normal [of "- 1" "127 / 128"] by (simp add: roundHalfEven_def)

theorem zoom_in_strict_preset_counterexample:
  "fl (127 / 128) = 127 / 128 \<and> (0.25::real) \<le> 127 / 128 \<and> (127 / 128 :: real) \<le> 5
   \<and> spec_zoom_in (127 / 128) = 1 \<and> zoomInStep (127 / 128) = 1.25
   \<and> zoomInStep (127 / 128) \<noteq> spec_zoom_in (127 / 128)"
  by (simp add: spec_zoom_in_def zoomInStep_def ZOOM_PRESETS_def fl_sum_below_one fl_below_one)

lemma zoom_out_strict_preset_example:
  "spec_zoom_out (129 / 128) = 1 \<and> zoomOutStep (129 / 128) = 0.75"
proof -
  have "fl (129 / 128 - fl (1 / 100)) = 4493748003185623 / 4503599627370496"
    using fl_normal [of "- 1" "129 / 128 - 5764607523034235 / 576460752303423488"]
    by (simp add: fl_tolerance roundHalfEven_def)
  then show ?thesis
    by (simp add: spec_zoom_out_def zoomOutStep_def ZOOM_PRESETS_def)
qed

text \<open>
  Rounding decides the step next to a preset. The binary64 value of \<^verbatim>\<open>0.51\<close> lies above
  \<open>0.51\<close>, yet its rounded difference with \<^verbatim>\<open>0.01\<close> is exactly \<open>0.5\<close>: no preset lies
  below it and zoom-out goes to the binary64 value of \<^verbatim>\<open>0.26\<close>. The binary64 value of
  \<^verbatim>\<open>0.49\<close> lies below \<open>0.49\<close>, its rounded sum with \<^verbatim>\<open>0.01\<close> is exactly \<open>0.5\<close>, and
  zoom-in skips the preset \<open>0.5\<close>.
\<close>

lemma zoom_out_rounding_example:
  "fl (2296835809958953 / 4503599627370496) = 2296835809958953 / 4503599627370496
   \<and> 0.51 < (2296835809958953 / 4503599627370496 :: real)
   \<and> fl (2296835809958953 / 4503599627370496 - fl 0.01) = 0.5
   \<and> zoomOutStep (2296835809958953 / 4503599627370496)
       = 1170935903116329 / 4503599627370496"
proof -
  have a: "fl (2296835809958953 / 4503599627370496) = 2296835809958953 / 4503599627370496"
    using fl_normal [of "- 1" "2296835809958953 / 4503599627370496"]
    by (simp add: roundHalfEven_def)
  have b: "fl (2296835809958953 / 4503599627370496 - fl (1 / 100)) = 1 / 2"
    using fl_normal [of "- 1"
        "2296835809958953 / 4503599627370496 - 5764607523034235 / 576460752303423488"]
    by (simp add: fl_tolerance roundHalfEven_def)
  have c: "fl (1170935903116329 / 4503599627370496) = 1170935903116329 / 4503599627370496"
    using fl_normal [of "- 2" "1170935903116329 / 4503599627370496"]
    by (simp add: roundHalfEven_def)
  show ?thesis
    by (simp add: a b c zoomOutStep_def ZOOM_PRESETS_def)
qed

lemma zoom_in_rounding_example:
  "fl (2206763817411543 / 4503599627370496) = 2206763817411543 / 4503599627370496
   \<and> (2206763817411543 / 4503599627370496 :: real) < 0.49
   \<and> fl (2206763817411543 / 4503599627370496 + fl 0.01) = 0.5
   \<and> zoomInStep (2206763817411543 / 4503599627370496) = 0.75"
proof -
  have a: "fl (2206763817411543 / 4503599627370496) = 2206763817411543 / 4503599627370496"
    using fl_normal [of "- 2" "2206763817411543 / 4503599627370496"]
    by (simp add: roundHalfEven_def)
  have b: "fl (2206763817411543 / 4503599627370496 + fl (1 / 100)) = 1 / 2"
    using fl_normal [of "- 2"
        "2206763817411543 / 4503599627370496 + 5764607523034235 / 576460752303423488"]
    by (simp add: fl_tolerance roundHalfEven_def)
  show ?thesis
    by (simp add: a b zoomInStep_def ZOOM_PRESETS_def)
qed

text \<open>Events that keep the multiplier meaningful: explicit zoom values are positive
  and every observed container width exceeds the fixed padding of 48 pixels.\<close>

lemma zoom_run_snoc: "zoom_run z0 (es @ [e]) = zoom_step (zoom_run z0 es) e"
  by (simp add: zoom_run_def)

lemma zoom_invariant:
  assumes "case optZoom of None \<Rightarrow> True | Some z \<Rightarrow> 0 < z"
    and "list_all zoom_event_ok es"
  shows "0 < zoom (zoom_run optZoom es)
       \<and> (containerWidth (zoom_run optZoom es) = 0 \<or> 48 < containerWidth (zoom_run optZoom es))"
  using assms(2)
proof (induction es rule: rev_induct)
  case Nil
  show ?case using assms(1)
    by (simp add: zoom_run_def zoom_init_def split: option.splits)
next
  case (snoc e es)
  then have IH: "0 < zoom (zoom_run optZoom es)"
      "containerWidth (zoom_run optZoom es) = 0 \<or> 48 < containerWidth (zoom_run optZoom es)"
    and ok: "zoom_event_ok e"
    by simp_all
  show ?case
  proof (cases e)
    case ZoomIn
    then show ?thesis using IH
      by (simp add: zoom_run_snoc handleZoomIn_def zoomInStep_pos)
  next
    case ZoomOut
    then show ?thesis using IH
      by (simp add: zoom_run_snoc handleZoomOut_def zoomOutStep_pos)
  next
    case (ZoomChange v)
    then show ?thesis using IH ok
      by (cases v) (simp_all add: zoom_run_snoc handleZoomChange_def)
  next
    case (Resized w)
    then show ?thesis using IH ok
      by (simp add: zoom_run_snoc onResize_def)
  qed
qed

text \<open>
  C7 (as the code has it). Starting from a positive initial multiplier (or the default 1),
  after any sequence of zoom-in, zoom-out, explicit positive zoom values, page-fit
  selections and observed container widths above the 48 pixel padding, the effective
  zoom is strictly positive; in page-fit mode with a measured width it is
  \<open>min ((containerWidth - 48) / 794) 2\<close>, otherwise it is the stored multiplier.
\<close>

theorem effective_zoom_positive:
  assumes "case optZoom of None \<Rightarrow> True | Some z \<Rightarrow> 0 < z"
    and "list_all zoom_event_ok es"
  shows "0 < effectiveZoom (zoom_run optZoom es)
       \<and> effectiveZoom (zoom_run optZoom es) =
           (if zoomMode (zoom_run optZoom es) = PageFit \<and> 0 < containerWidth (zoom_run optZoom es)
            then min ((containerWidth (zoom_run optZoom es) - 48) / 794) 2
            else zoom (zoom_run optZoom es))"
  using zoom_invariant [OF assms]
  by (auto simp: effectiveZoom_def A4_WIDTH_PX_def)

theorem effective_zoom_positive_witness:
  "list_all zoom_event_ok [Resized 842, ZoomIn, ZoomChange None, ZoomOut, ZoomChange (Some 1.5)]
   \<and> 0 < effectiveZoom
        (zoom_run None [Resized 842, ZoomIn, ZoomChange None, ZoomOut, ZoomChange (Some 1.5)])"
proof -
  have ok: "list_all zoom_event_ok
      [Resized 842, ZoomIn, ZoomChange None, ZoomOut, ZoomChange (Some 1.5)]"
    by simp
  have z0: "case (None :: real option) of None \<Rightarrow> True | Some z \<Rightarrow> 0 < z"
    by simp
  show ?thesis using ok effective_zoom_positive [OF z0 ok] by simp
qed

text \<open>
  The specification's wording of C7 promises a positive value for every positive observed width. A
  container 40 pixels wide is narrower than the padding, and the derived value is
  negative.
\<close>

theorem page_fit_narrow_container_counterexample:
  "(0::real) < 40
   \<and> zoomMode (zoom_run None [Resized 40]) = PageFit
   \<and> containerWidth (zoom_run None [Resized 40]) = 40
   \<and> effectiveZoom (zoom_run None [Resized 40]) < 0"
  by (simp add: zoom_run_def zoom_init_def onResize_def effectiveZoom_def A4_WIDTH_PX_def)

section \<open>Search: theorems\<close>

lemma pdf_run_snoc: "pdf_run (es @ [e]) = pdf_step (pdf_run es) e"
  by (simp add: pdf_run_def)

subsection \<open>What each operation changes\<close>

lemma runCleanup_frame:
  "searchQuery (runCleanup s) = searchQuery s"
  "numPages (runCleanup s) = numPages s"
  "pdfDocRef (runCleanup s) = pdfDocRef s"
  "searchMatches (runCleanup s) = searchMatches s"
  "searchIndex (runCleanup s) = searchIndex s"
  "currentPage (runCleanup s) = currentPage s"
  "scrolls (runCleanup s) = scrolls s"
  "commits (runCleanup s) = commits s"
  "cleanup (runCleanup s) = None"
  "length (runs (runCleanup s)) = length (runs s)"
  by (simp_all add: runCleanup_def split: option.splits)

lemma nth_update_if: "j < length xs \<Longrightarrow> xs[i := x] ! j = (if i = j then x else xs ! j)"
  by (cases "i = j") simp_all

lemma runCleanup_nth:
  assumes "i < length (runs s)"
  shows "run_query (runs (runCleanup s) ! i) = run_query (runs s ! i)"
    "run_numPages (runs (runCleanup s) ! i) = run_numPages (runs s ! i)"
    "run_pageNum (runs (runCleanup s) ! i) = run_pageNum (runs s ! i)"
    "run_matches (runs (runCleanup s) ! i) = run_matches (runs s ! i)"
    "run_status (runs (runCleanup s) ! i) = run_status (runs s ! i)"
    "run_cancelled (runs (runCleanup s) ! i) \<longleftrightarrow> run_cancelled (runs s ! i) \<or> cleanup s = Some i"
  using assms by (auto simp: runCleanup_def nth_update_if split: option.splits)

lemma searchEffect_cases:
  obtains (clear) "searchEffect s = s\<lparr>searchMatches := [], searchIndex := 0\<rparr>"
  | (start) n where "numPages s = Some n" "0 < n" "pdfDocRef s"
      "toLowerCase (trim (searchQuery s)) \<noteq> []"
      "searchEffect s =
         s\<lparr>runs := runs s @ [new_run (toLowerCase (trim (searchQuery s))) n],
           cleanup := Some (length (runs s))\<rparr>"
proof (cases "numPages s")
  case None
  then have "searchEffect s = s\<lparr>searchMatches := [], searchIndex := 0\<rparr>"
    by (simp add: searchEffect_def)
  then show ?thesis by (rule clear)
next
  case (Some n)
  show ?thesis
  proof (cases "toLowerCase (trim (searchQuery s)) = [] \<or> \<not> pdfDocRef s \<or> n = 0")
    case True
    with Some have "searchEffect s = s\<lparr>searchMatches := [], searchIndex := 0\<rparr>"
      by (simp add: searchEffect_def)
    then show ?thesis by (rule clear)
  next
    case False
    with Some show ?thesis
      by (intro start [of n]) (simp_all add: searchEffect_def new_run_def)
  qed
qed

lemma resumeRun_cases:
  obtains (idle) "resumeRun rid ext s = s"
  | (reject) "rid < length (runs s)" "run_status (runs s ! rid) = Pending"
      "resumeRun rid ext s =
         s\<lparr>runs := (runs s)[rid := (runs s ! rid)\<lparr>run_status := Rejected\<rparr>]\<rparr>"
  | (advance) ms where "rid < length (runs s)" "run_status (runs s ! rid) = Pending"
      "ms = run_matches (runs s ! rid) \<or> ms = run_matches (runs s ! rid) @ [run_pageNum (runs s ! rid)]"
      "run_pageNum (runs s ! rid) + 1 \<le> run_numPages (runs s ! rid)"
      "resumeRun rid ext s =
         s\<lparr>runs := (runs s)[rid := (runs s ! rid)
              \<lparr>run_matches := ms, run_pageNum := run_pageNum (runs s ! rid) + 1\<rparr>]\<rparr>"
  | (finish) ms where "rid < length (runs s)" "run_status (runs s ! rid) = Pending"
      "ms = run_matches (runs s ! rid) \<or> ms = run_matches (runs s ! rid) @ [run_pageNum (runs s ! rid)]"
      "\<not> run_pageNum (runs s ! rid) + 1 \<le> run_numPages (runs s ! rid)"
      "run_cancelled (runs s ! rid)"
      "resumeRun rid ext s =
         s\<lparr>runs := (runs s)[rid := (runs s ! rid)
              \<lparr>run_matches := ms, run_pageNum := run_pageNum (runs s ! rid) + 1,
               run_status := Fulfilled\<rparr>]\<rparr>"
  | (publish) ms where "rid < length (runs s)" "run_status (runs s ! rid) = Pending"
      "ms = run_matches (runs s ! rid) \<or> ms = run_matches (runs s ! rid) @ [run_pageNum (runs s ! rid)]"
      "\<not> run_pageNum (runs s ! rid) + 1 \<le> run_numPages (runs s ! rid)"
      "\<not> run_cancelled (runs s ! rid)"
      "resumeRun rid ext s =
         publish rid ms (s\<lparr>runs := (runs s)[rid := (runs s ! rid)
              \<lparr>run_matches := ms, run_pageNum := run_pageNum (runs s ! rid) + 1,
               run_status := Fulfilled\<rparr>]\<rparr>)"
proof (cases "rid < length (runs s) \<and> run_status (runs s ! rid) = Pending")
  case False
  then have "resumeRun rid ext s = s" by (auto simp: resumeRun_def)
  then show ?thesis by (rule idle)
next
  case True
  show ?thesis
  proof (cases ext)
    case Rejects
    with True show ?thesis by (intro reject) (simp_all add: resumeRun_def)
  next
    case (TextItems items)
    define ms where "ms = (if pageMatches (run_query (runs s ! rid)) items
        then run_matches (runs s ! rid) @ [run_pageNum (runs s ! rid)]
        else run_matches (runs s ! rid))"
    have ms: "ms = run_matches (runs s ! rid) \<or> ms = run_matches (runs s ! rid) @ [run_pageNum (runs s ! rid)]"
      by (simp add: ms_def)
    show ?thesis
    proof (cases "run_pageNum (runs s ! rid) + 1 \<le> run_numPages (runs s ! rid)")
      case adv: True
      show ?thesis
        using True ms adv
        by (intro advance [of ms]) (simp_all add: resumeRun_def TextItems ms_def Let_def)
    next
      case fin: False
      show ?thesis
      proof (cases "run_cancelled (runs s ! rid)")
        case c: True
        show ?thesis using True ms fin c
          by (intro finish [of ms]) (simp_all add: resumeRun_def TextItems ms_def Let_def)
      next
        case c: False
        show ?thesis using True ms fin c
          by (intro publish [of ms]) (simp_all add: resumeRun_def TextItems ms_def Let_def)
      qed
    qed
  qed
qed

lemma publish_frame:
  "searchQuery (publish rid ms s) = searchQuery s"
  "numPages (publish rid ms s) = numPages s"
  "pdfDocRef (publish rid ms s) = pdfDocRef s"
  "searchMatches (publish rid ms s) = ms"
  "searchIndex (publish rid ms s) = 0"
  "commits (publish rid ms s) = commits s @ [rid]"
  "cleanup (publish rid ms s) = cleanup s"
  "runs (publish rid ms s) = runs s"
  by (simp_all add: publish_def scrollToPage_def Let_def)

lemma closure_frame:
  "searchQuery (nextMatch ms i s) = searchQuery s"
  "numPages (nextMatch ms i s) = numPages s"
  "pdfDocRef (nextMatch ms i s) = pdfDocRef s"
  "searchMatches (nextMatch ms i s) = searchMatches s"
  "commits (nextMatch ms i s) = commits s"
  "cleanup (nextMatch ms i s) = cleanup s"
  "runs (nextMatch ms i s) = runs s"
  "searchQuery (prevMatch ms i s) = searchQuery s"
  "numPages (prevMatch ms i s) = numPages s"
  "pdfDocRef (prevMatch ms i s) = pdfDocRef s"
  "searchMatches (prevMatch ms i s) = searchMatches s"
  "commits (prevMatch ms i s) = commits s"
  "cleanup (prevMatch ms i s) = cleanup s"
  "runs (prevMatch ms i s) = runs s"
  by (simp_all add: nextMatch_def prevMatch_def scrollToMatch_def scrollToPage_def Let_def
      split: option.splits)

lemma nav_frame:
  "searchQuery (onSearchNext s) = searchQuery s"
  "numPages (onSearchNext s) = numPages s"
  "pdfDocRef (onSearchNext s) = pdfDocRef s"
  "searchMatches (onSearchNext s) = searchMatches s"
  "commits (onSearchNext s) = commits s"
  "cleanup (onSearchNext s) = cleanup s"
  "runs (onSearchNext s) = runs s"
  "searchQuery (onSearchPrev s) = searchQuery s"
  "numPages (onSearchPrev s) = numPages s"
  "pdfDocRef (onSearchPrev s) = pdfDocRef s"
  "searchMatches (onSearchPrev s) = searchMatches s"
  "commits (onSearchPrev s) = commits s"
  "cleanup (onSearchPrev s) = cleanup s"
  "runs (onSearchPrev s) = runs s"
  by (simp_all add: onSearchNext_def onSearchPrev_def closure_frame)

lemma api_frame:
  "searchQuery (viewerReadyEffect s) = searchQuery s"
  "numPages (viewerReadyEffect s) = numPages s"
  "pdfDocRef (viewerReadyEffect s) = pdfDocRef s"
  "searchMatches (viewerReadyEffect s) = searchMatches s"
  "searchIndex (viewerReadyEffect s) = searchIndex s"
  "commits (viewerReadyEffect s) = commits s"
  "cleanup (viewerReadyEffect s) = cleanup s"
  "runs (viewerReadyEffect s) = runs s"
  "searchQuery (apiNextMatch s) = searchQuery s"
  "numPages (apiNextMatch s) = numPages s"
  "pdfDocRef (apiNextMatch s) = pdfDocRef s"
  "searchMatches (apiNextMatch s) = searchMatches s"
  "commits (apiNextMatch s) = commits s"
  "cleanup (apiNextMatch s) = cleanup s"
  "runs (apiNextMatch s) = runs s"
  "searchQuery (apiPrevMatch s) = searchQuery s"
  "numPages (apiPrevMatch s) = numPages s"
  "pdfDocRef (apiPrevMatch s) = pdfDocRef s"
  "searchMatches (apiPrevMatch s) = searchMatches s"
  "commits (apiPrevMatch s) = commits s"
  "cleanup (apiPrevMatch s) = cleanup s"
  "runs (apiPrevMatch s) = runs s"
  by (simp_all add: viewerReadyEffect_def apiNextMatch_def apiPrevMatch_def closure_frame
      split: option.splits)

subsection \<open>Invariants\<close>

lemma restart_cleanup_inv:
  assumes "\<forall>k. cleanup s = Some k \<longrightarrow> Suc k = length (runs s)"
    and "\<forall>i < length (runs s). cleanup s \<noteq> Some i \<longrightarrow> run_cancelled (runs s ! i)"
  shows "cleanup_inv (searchEffect (runCleanup s))"
proof -
  let ?c = "runCleanup s"
  have all: "\<forall>i < length (runs ?c). run_cancelled (runs ?c ! i)"
    using assms(2) by (auto simp: runCleanup_frame runCleanup_nth)
  show ?thesis
  proof (cases ?c rule: searchEffect_cases)
    case clear
    then show ?thesis using all by (simp add: cleanup_inv_def runCleanup_frame)
  next
    case (start n)
    then show ?thesis using all
      by (auto simp: cleanup_inv_def runCleanup_frame nth_append new_run_def)
  qed
qed

lemma cleanup_inv_step:
  assumes "cleanup_inv s"
  shows "cleanup_inv (pdf_step s e)"
proof (cases e)
  case (SetSearchQuery q)
  show ?thesis
  proof (cases "q = searchQuery s")
    case True
    with SetSearchQuery assms show ?thesis by (simp add: setSearchQuery_def)
  next
    case False
    have "cleanup_inv (searchEffect (runCleanup (s\<lparr>searchQuery := q\<rparr>)))"
      using assms by (intro restart_cleanup_inv) (auto simp: cleanup_inv_def)
    with False SetSearchQuery show ?thesis by (simp add: setSearchQuery_def)
  qed
next
  case (DocumentLoaded n)
  show ?thesis
  proof (cases "numPages s = Some n")
    case True
    with DocumentLoaded assms show ?thesis
      by (simp add: handleDocumentLoadSuccess_def cleanup_inv_def)
  next
    case False
    have "cleanup_inv (searchEffect (runCleanup (s\<lparr>pdfDocRef := True, numPages := Some n\<rparr>)))"
      using assms by (intro restart_cleanup_inv) (auto simp: cleanup_inv_def)
    with False DocumentLoaded show ?thesis by (simp add: handleDocumentLoadSuccess_def)
  qed
next
  case (Resume rid ext)
  show ?thesis
  proof (cases rid ext s rule: resumeRun_cases)
    case idle
    with Resume assms show ?thesis by simp
  next
    case reject
    with Resume assms show ?thesis by (auto simp: cleanup_inv_def nth_update_if)
  next
    case (advance ms)
    with Resume assms show ?thesis by (auto simp: cleanup_inv_def nth_update_if)
  next
    case (finish ms)
    with Resume assms show ?thesis by (auto simp: cleanup_inv_def nth_update_if)
  next
    case (publish ms)
    with Resume assms show ?thesis
      by (auto simp: cleanup_inv_def nth_update_if publish_frame)
  qed
next
  case NextMatch
  with assms show ?thesis by (simp add: cleanup_inv_def nav_frame)
next
  case PrevMatch
  with assms show ?thesis by (simp add: cleanup_inv_def nav_frame)
next
  case ViewerReady
  with assms show ?thesis by (simp add: cleanup_inv_def api_frame)
next
  case ApiNextMatch
  with assms show ?thesis by (simp add: cleanup_inv_def api_frame)
next
  case ApiPrevMatch
  with assms show ?thesis by (simp add: cleanup_inv_def api_frame)
qed

lemma restart_commits_inv:
  assumes "commits_inv s"
  shows "commits_inv (searchEffect (runCleanup s))"
proof -
  let ?c = "runCleanup s"
  have c: "commits_inv ?c"
    using assms by (auto simp: commits_inv_def runCleanup_frame runCleanup_nth)
  show ?thesis
  proof (cases ?c rule: searchEffect_cases)
    case clear
    then show ?thesis using c by (simp add: commits_inv_def)
  next
    case (start n)
    then show ?thesis using c by (auto simp: commits_inv_def nth_append)
  qed
qed

lemma commits_inv_step:
  assumes "commits_inv s"
  shows "commits_inv (pdf_step s e)"
proof (cases e)
  case (SetSearchQuery q)
  have "commits_inv (s\<lparr>searchQuery := q\<rparr>)"
    using assms by (simp add: commits_inv_def)
  then show ?thesis using SetSearchQuery assms
    by (simp add: setSearchQuery_def restart_commits_inv)
next
  case (DocumentLoaded n)
  have "commits_inv (s\<lparr>pdfDocRef := True, numPages := Some n\<rparr>)"
    and "commits_inv (s\<lparr>pdfDocRef := True\<rparr>)"
    using assms by (simp_all add: commits_inv_def)
  then show ?thesis using DocumentLoaded
    by (simp add: handleDocumentLoadSuccess_def restart_commits_inv)
next
  case (Resume rid ext)
  show ?thesis
  proof (cases rid ext s rule: resumeRun_cases)
    case idle
    with Resume assms show ?thesis by simp
  next
    case reject
    with Resume assms show ?thesis by (auto simp: commits_inv_def nth_update_if)
  next
    case (advance ms)
    with Resume assms show ?thesis by (auto simp: commits_inv_def nth_update_if)
  next
    case (finish ms)
    with Resume assms show ?thesis by (auto simp: commits_inv_def nth_update_if)
  next
    case (publish ms)
    with Resume assms show ?thesis
      by (auto simp: commits_inv_def nth_update_if publish_frame)
  qed
next
  case NextMatch
  with assms show ?thesis by (simp add: commits_inv_def nav_frame)
next
  case PrevMatch
  with assms show ?thesis by (simp add: commits_inv_def nav_frame)
next
  case ViewerReady
  with assms show ?thesis by (simp add: commits_inv_def api_frame)
next
  case ApiNextMatch
  with assms show ?thesis by (simp add: commits_inv_def api_frame)
next
  case ApiPrevMatch
  with assms show ?thesis by (simp add: commits_inv_def api_frame)
qed

lemma restart_runs_inv:
  assumes "runs_inv s"
  shows "runs_inv (searchEffect (runCleanup s))"
proof -
  let ?c = "runCleanup s"
  have c: "runs_inv ?c"
    using assms by (auto simp: runs_inv_def run_ok_def runCleanup_frame runCleanup_nth)
  show ?thesis
  proof (cases ?c rule: searchEffect_cases)
    case clear
    then show ?thesis using c by (simp add: runs_inv_def)
  next
    case (start n)
    have "run_ok (new_run (toLowerCase (trim (searchQuery ?c))) n)"
      using start(2) by (simp add: run_ok_def new_run_def)
    then show ?thesis using c start(5) by (auto simp: runs_inv_def nth_append)
  qed
qed

lemma run_ok_advance:
  assumes "run_ok r" and "run_status r = Pending"
    and "ms = run_matches r \<or> ms = run_matches r @ [run_pageNum r]"
  shows "run_pageNum r + 1 \<le> run_numPages r \<Longrightarrow>
           run_ok (r\<lparr>run_matches := ms, run_pageNum := run_pageNum r + 1\<rparr>)"
    and "run_ok (r\<lparr>run_matches := ms, run_pageNum := run_pageNum r + 1, run_status := Fulfilled\<rparr>)"
    and "run_ok (r\<lparr>run_status := Rejected\<rparr>)"
  using assms by (auto simp: run_ok_def sorted_wrt_append less_Suc_eq)

lemma runs_inv_step:
  assumes "runs_inv s"
  shows "runs_inv (pdf_step s e)"
proof (cases e)
  case (SetSearchQuery q)
  have "runs_inv (s\<lparr>searchQuery := q\<rparr>)"
    using assms by (simp add: runs_inv_def)
  then show ?thesis using SetSearchQuery assms
    by (simp add: setSearchQuery_def restart_runs_inv)
next
  case (DocumentLoaded n)
  have "runs_inv (s\<lparr>pdfDocRef := True, numPages := Some n\<rparr>)"
    and "runs_inv (s\<lparr>pdfDocRef := True\<rparr>)"
    using assms by (simp_all add: runs_inv_def)
  then show ?thesis using DocumentLoaded
    by (simp add: handleDocumentLoadSuccess_def restart_runs_inv)
next
  case (Resume rid ext)
  show ?thesis
  proof (cases rid ext s rule: resumeRun_cases)
    case idle
    with Resume assms show ?thesis by simp
  next
    case reject
    then have "run_ok (runs s ! rid)" using assms by (simp add: runs_inv_def)
    from run_ok_advance(3) [OF this reject(2)] reject Resume assms
    show ?thesis by (auto simp: runs_inv_def nth_update_if)
  next
    case (advance ms)
    then have "run_ok (runs s ! rid)" using assms by (simp add: runs_inv_def)
    from run_ok_advance(1) [OF this advance(2) advance(3) advance(4)] advance Resume assms
    show ?thesis by (auto simp: runs_inv_def nth_update_if)
  next
    case (finish ms)
    then have "run_ok (runs s ! rid)" using assms by (simp add: runs_inv_def)
    from run_ok_advance(2) [OF this finish(2) finish(3)] finish Resume assms
    show ?thesis by (auto simp: runs_inv_def nth_update_if)
  next
    case (publish ms)
    then have "run_ok (runs s ! rid)" using assms by (simp add: runs_inv_def)
    from run_ok_advance(2) [OF this publish(2) publish(3)] publish Resume assms
    show ?thesis by (auto simp: runs_inv_def nth_update_if publish_frame)
  qed
next
  case NextMatch
  with assms show ?thesis by (simp add: runs_inv_def nav_frame)
next
  case PrevMatch
  with assms show ?thesis by (simp add: runs_inv_def nav_frame)
next
  case ViewerReady
  with assms show ?thesis by (simp add: runs_inv_def api_frame)
next
  case ApiNextMatch
  with assms show ?thesis by (simp add: runs_inv_def api_frame)
next
  case ApiPrevMatch
  with assms show ?thesis by (simp add: runs_inv_def api_frame)
qed

lemma js_rem_nonneg: "0 \<le> a \<Longrightarrow> 0 < b \<Longrightarrow> js_rem a b = a mod b"
  by (cases "a = 0") (simp_all add: js_rem_def)

lemma closure_index:
  assumes "0 \<le> i" and "ms \<noteq> []"
  shows "searchIndex (nextMatch ms i s) = (i + 1) mod int (length ms)"
    and "searchIndex (prevMatch ms i s) = (i - 1 + int (length ms)) mod int (length ms)"
proof -
  let ?n = "int (length ms)"
  have n: "0 < ?n" using assms(2) by simp
  have a: "js_rem (i + 1) ?n = (i + 1) mod ?n"
    using assms(1) n by (intro js_rem_nonneg) simp_all
  have "0 \<le> i - 1 + ?n" using assms(1) n by linarith
  then have b: "js_rem (i - 1 + ?n) ?n = (i - 1 + ?n) mod ?n"
    using n by (rule js_rem_nonneg)
  show "searchIndex (nextMatch ms i s) = (i + 1) mod ?n"
    using assms(2) a
    by (simp add: nextMatch_def scrollToMatch_def scrollToPage_def Let_def split: option.splits)
  show "searchIndex (prevMatch ms i s) = (i - 1 + ?n) mod ?n"
    using assms(2) b
    by (simp add: prevMatch_def scrollToMatch_def scrollToPage_def Let_def split: option.splits)
qed

lemma closure_empty: "nextMatch [] i s = s \<and> prevMatch [] i s = s"
  by (simp add: nextMatch_def prevMatch_def)

lemma nav_index:
  assumes "0 \<le> searchIndex s" and "searchMatches s \<noteq> []"
  shows "searchIndex (onSearchNext s) = (searchIndex s + 1) mod int (length (searchMatches s))"
    and "searchIndex (onSearchPrev s) =
           (searchIndex s - 1 + int (length (searchMatches s))) mod int (length (searchMatches s))"
  using closure_index [OF assms] by (simp_all add: onSearchNext_def onSearchPrev_def)

lemma nav_empty: "searchMatches s = [] \<Longrightarrow> onSearchNext s = s \<and> onSearchPrev s = s"
  by (simp add: onSearchNext_def onSearchPrev_def closure_empty)

lemma restart_matches_inv:
  assumes "matches_inv s"
  shows "matches_inv (searchEffect (runCleanup s))"
proof -
  let ?c = "runCleanup s"
  have c: "matches_inv ?c"
    using assms by (simp add: matches_inv_def runCleanup_frame)
  show ?thesis
  proof (cases ?c rule: searchEffect_cases)
    case clear
    then show ?thesis by (simp add: matches_inv_def)
  next
    case (start n)
    then show ?thesis using c by (simp add: matches_inv_def)
  qed
qed

lemma matches_inv_step:
  assumes "matches_inv s" and "runs_inv s"
  shows "matches_inv (pdf_step s e)"
proof (cases e)
  case (SetSearchQuery q)
  have "matches_inv (s\<lparr>searchQuery := q\<rparr>)"
    using assms by (simp add: matches_inv_def)
  then show ?thesis using SetSearchQuery assms
    by (simp add: setSearchQuery_def restart_matches_inv)
next
  case (DocumentLoaded n)
  have "matches_inv (s\<lparr>pdfDocRef := True, numPages := Some n\<rparr>)"
    and "matches_inv (s\<lparr>pdfDocRef := True\<rparr>)"
    using assms by (simp_all add: matches_inv_def)
  then show ?thesis using DocumentLoaded
    by (simp add: handleDocumentLoadSuccess_def restart_matches_inv)
next
  case (Resume rid ext)
  show ?thesis
  proof (cases rid ext s rule: resumeRun_cases)
    case idle
    with Resume assms show ?thesis by simp
  next
    case reject
    with Resume assms show ?thesis by (simp add: matches_inv_def)
  next
    case (advance ms)
    with Resume assms show ?thesis by (simp add: matches_inv_def)
  next
    case (finish ms)
    with Resume assms show ?thesis by (simp add: matches_inv_def)
  next
    case (publish ms)
    then have "run_ok (runs s ! rid)" using assms(2) by (simp add: runs_inv_def)
    from run_ok_advance(2) [OF this publish(2) publish(3)]
    have "sorted_wrt (<) ms \<and> (\<forall>p\<in>set ms. 1 \<le> p)"
      by (simp add: run_ok_def)
    with publish Resume show ?thesis
      by (simp add: matches_inv_def publish_frame)
  qed
next
  case NextMatch
  with assms show ?thesis by (simp add: matches_inv_def nav_frame)
next
  case PrevMatch
  with assms show ?thesis by (simp add: matches_inv_def nav_frame)
next
  case ViewerReady
  with assms show ?thesis by (simp add: matches_inv_def api_frame)
next
  case ApiNextMatch
  with assms show ?thesis by (simp add: matches_inv_def api_frame)
next
  case ApiPrevMatch
  with assms show ?thesis by (simp add: matches_inv_def api_frame)
qed

lemma reachable_invariants:
  "cleanup_inv (pdf_run es) \<and> commits_inv (pdf_run es) \<and> runs_inv (pdf_run es)
   \<and> matches_inv (pdf_run es)"
proof (induction es rule: rev_induct)
  case Nil
  show ?case
    by (simp add: pdf_run_def pdf_init_def cleanup_inv_def commits_inv_def runs_inv_def
        matches_inv_def)
next
  case (snoc e es)
  then show ?case
    by (simp add: pdf_run_snoc cleanup_inv_step commits_inv_step runs_inv_step matches_inv_step)
qed

subsection \<open>Navigation with the toolbar\<close>

lemma restart_index_inv:
  assumes "index_inv s"
  shows "index_inv (searchEffect (runCleanup s))"
proof -
  let ?c = "runCleanup s"
  have c: "index_inv ?c"
    using assms by (simp add: index_inv_def runCleanup_frame)
  show ?thesis
  proof (cases ?c rule: searchEffect_cases)
    case clear
    then show ?thesis by (simp add: index_inv_def)
  next
    case (start n)
    then show ?thesis using c by (simp add: index_inv_def)
  qed
qed

text \<open>Every step other than a call through the viewer API keeps the index in range.\<close>

lemma index_inv_step:
  assumes "index_inv s" and "\<not> is_api_call e"
  shows "index_inv (pdf_step s e)"
proof (cases e)
  case (SetSearchQuery q)
  have "index_inv (s\<lparr>searchQuery := q\<rparr>)"
    using assms by (simp add: index_inv_def)
  then show ?thesis using SetSearchQuery assms
    by (simp add: setSearchQuery_def restart_index_inv)
next
  case (DocumentLoaded n)
  have "index_inv (s\<lparr>pdfDocRef := True, numPages := Some n\<rparr>)"
    and "index_inv (s\<lparr>pdfDocRef := True\<rparr>)"
    using assms by (simp_all add: index_inv_def)
  then show ?thesis using DocumentLoaded
    by (simp add: handleDocumentLoadSuccess_def restart_index_inv)
next
  case (Resume rid ext)
  show ?thesis
  proof (cases rid ext s rule: resumeRun_cases)
    case idle
    with Resume assms show ?thesis by simp
  next
    case reject
    with Resume assms show ?thesis by (simp add: index_inv_def)
  next
    case (advance ms)
    with Resume assms show ?thesis by (simp add: index_inv_def)
  next
    case (finish ms)
    with Resume assms show ?thesis by (simp add: index_inv_def)
  next
    case (publish ms)
    with Resume show ?thesis by (simp add: index_inv_def publish_frame)
  qed
next
  case NextMatch
  show ?thesis
  proof (cases "searchMatches s = []")
    case True
    with NextMatch assms show ?thesis by (simp add: nav_empty)
  next
    case False
    with assms(1) have "0 \<le> searchIndex s" by (simp add: index_inv_def)
    from nav_index(1) [OF this False] False NextMatch assms(1)
    show ?thesis by (simp add: index_inv_def nav_frame)
  qed
next
  case PrevMatch
  show ?thesis
  proof (cases "searchMatches s = []")
    case True
    with PrevMatch assms show ?thesis by (simp add: nav_empty)
  next
    case False
    with assms(1) have "0 \<le> searchIndex s" by (simp add: index_inv_def)
    from nav_index(2) [OF this False] False PrevMatch assms(1)
    show ?thesis by (simp add: index_inv_def nav_frame)
  qed
next
  case ViewerReady
  with assms show ?thesis by (simp add: index_inv_def api_frame)
next
  case ApiNextMatch
  with assms(2) show ?thesis by simp
next
  case ApiPrevMatch
  with assms(2) show ?thesis by simp
qed

lemma reachable_index_inv:
  "\<not> list_ex is_api_call es \<Longrightarrow> index_inv (pdf_run es)"
proof (induction es rule: rev_induct)
  case Nil
  show ?case by (simp add: pdf_run_def pdf_init_def index_inv_def)
next
  case (snoc e es)
  then show ?case by (simp add: pdf_run_snoc index_inv_step)
qed

lemma nav_iterate:
  assumes "0 \<le> searchIndex s" and "searchIndex s < int (length (searchMatches s))"
  shows "searchMatches ((onSearchNext ^^ k) s) = searchMatches s
       \<and> searchIndex ((onSearchNext ^^ k) s) =
           (searchIndex s + int k) mod int (length (searchMatches s))"
proof (induction k)
  case 0
  show ?case using assms by simp
next
  case (Suc k)
  let ?t = "(onSearchNext ^^ k) s"
  let ?n = "int (length (searchMatches s))"
  have n: "0 < ?n" using assms by linarith
  have ms: "searchMatches ?t = searchMatches s" using Suc by simp
  have idx: "searchIndex ?t = (searchIndex s + int k) mod ?n" using Suc by simp
  have nonneg: "0 \<le> searchIndex ?t" using n by (simp add: idx)
  have ne: "searchMatches ?t \<noteq> []" using ms n by auto
  have "searchIndex (onSearchNext ?t) = (searchIndex ?t + 1) mod ?n"
    using nav_index(1) [OF nonneg ne] ms by simp
  also have "\<dots> = ((searchIndex s + int k) mod ?n + 1) mod ?n"
    by (simp only: idx)
  also have "\<dots> = (searchIndex s + int k + 1) mod ?n"
    by (rule mod_add_left_eq)
  also have "\<dots> = (searchIndex s + int (Suc k)) mod ?n"
    by (simp add: algebra_simps)
  finally show ?case by (simp add: nav_frame ms)
qed

lemma nav_circular:
  assumes "0 \<le> searchIndex s" and "searchIndex s < int (length (searchMatches s))"
  shows "searchIndex ((onSearchNext ^^ length (searchMatches s)) s) = searchIndex s"
  using nav_iterate [OF assms, of "length (searchMatches s)"] assms by simp

text \<open>
  As long as no call has gone through the viewer API: in every reachable state with at
  least one match the active index is a valid index into the match list, the toolbar's
  next and previous buttons move it by one modulo the match count and keep the match
  list, and the next button pressed match-count times returns the index to its original
  value. With no match both buttons leave the state unchanged.
\<close>

lemma toolbar_navigation_circular:
  assumes "\<not> list_ex is_api_call es"
  shows "let s = pdf_run es; n = length (searchMatches s) in
     (n = 0 \<longrightarrow> onSearchNext s = s \<and> onSearchPrev s = s)
   \<and> (1 \<le> n \<longrightarrow>
        0 \<le> searchIndex s \<and> searchIndex s < int n
      \<and> searchIndex (onSearchNext s) = (searchIndex s + 1) mod int n
      \<and> searchIndex (onSearchPrev s) = (searchIndex s - 1) mod int n
      \<and> 0 \<le> searchIndex (onSearchNext s) \<and> searchIndex (onSearchNext s) < int n
      \<and> 0 \<le> searchIndex (onSearchPrev s) \<and> searchIndex (onSearchPrev s) < int n
      \<and> searchMatches (onSearchNext s) = searchMatches s
      \<and> searchMatches (onSearchPrev s) = searchMatches s
      \<and> searchIndex ((onSearchNext ^^ n) s) = searchIndex s)"
proof -
  define s where "s = pdf_run es"
  define n where "n = length (searchMatches s)"
  have inv: "index_inv s" using reachable_index_inv [OF assms] by (simp add: s_def)
  have empty: "n = 0 \<longrightarrow> onSearchNext s = s \<and> onSearchPrev s = s"
    by (simp add: n_def nav_empty)
  have full: "1 \<le> n \<longrightarrow>
        0 \<le> searchIndex s \<and> searchIndex s < int n
      \<and> searchIndex (onSearchNext s) = (searchIndex s + 1) mod int n
      \<and> searchIndex (onSearchPrev s) = (searchIndex s - 1) mod int n
      \<and> 0 \<le> searchIndex (onSearchNext s) \<and> searchIndex (onSearchNext s) < int n
      \<and> 0 \<le> searchIndex (onSearchPrev s) \<and> searchIndex (onSearchPrev s) < int n
      \<and> searchMatches (onSearchNext s) = searchMatches s
      \<and> searchMatches (onSearchPrev s) = searchMatches s
      \<and> searchIndex ((onSearchNext ^^ n) s) = searchIndex s"
  proof
    assume n1: "1 \<le> n"
    then have ne: "searchMatches s \<noteq> []" by (auto simp: n_def)
    have i0: "0 \<le> searchIndex s" using inv by (simp add: index_inv_def)
    have i1: "searchIndex s < int n" using inv n1 by (auto simp: index_inv_def n_def)
    have npos: "0 < int n" using n1 by simp
    have nx: "searchIndex (onSearchNext s) = (searchIndex s + 1) mod int n"
      using nav_index(1) [OF i0 ne] by (simp add: n_def)
    have "searchIndex (onSearchPrev s) = (searchIndex s - 1 + int n) mod int n"
      using nav_index(2) [OF i0 ne] by (simp add: n_def)
    then have pv: "searchIndex (onSearchPrev s) = (searchIndex s - 1) mod int n"
      by simp
    have circ: "searchIndex ((onSearchNext ^^ n) s) = searchIndex s"
      using nav_circular [of s] i0 i1 by (simp add: n_def)
    show "0 \<le> searchIndex s \<and> searchIndex s < int n
      \<and> searchIndex (onSearchNext s) = (searchIndex s + 1) mod int n
      \<and> searchIndex (onSearchPrev s) = (searchIndex s - 1) mod int n
      \<and> 0 \<le> searchIndex (onSearchNext s) \<and> searchIndex (onSearchNext s) < int n
      \<and> 0 \<le> searchIndex (onSearchPrev s) \<and> searchIndex (onSearchPrev s) < int n
      \<and> searchMatches (onSearchNext s) = searchMatches s
      \<and> searchMatches (onSearchPrev s) = searchMatches s
      \<and> searchIndex ((onSearchNext ^^ n) s) = searchIndex s"
      using i0 i1 nx pv circ npos by (simp add: nav_frame)
  qed
  show ?thesis
    unfolding Let_def using empty [unfolded n_def s_def] full [unfolded n_def s_def] by blast
qed

lemma nav_trace_state:
  "searchMatches (pdf_run nav_trace) = [1, 3]" "searchIndex (pdf_run nav_trace) = 0"
  by (code_simp)+

lemma toolbar_navigation_example:
  "searchMatches (pdf_run nav_trace) = [1, 3]
   \<and> searchIndex (onSearchNext (pdf_run nav_trace)) = 1
   \<and> searchIndex (onSearchPrev (pdf_run nav_trace)) = 1
   \<and> searchIndex ((onSearchNext ^^ 2) (pdf_run nav_trace)) = searchIndex (pdf_run nav_trace)"
proof -
  have "\<not> list_ex is_api_call nav_trace" by (simp add: nav_trace_def)
  from toolbar_navigation_circular [OF this] nav_trace_state
  show ?thesis by (simp add: Let_def numeral_2_eq_2)
qed

subsection \<open>Navigation through the viewer API\<close>

lemma restart_viewerApi: "viewerApi (searchEffect (runCleanup s)) = viewerApi s"
proof -
  have "viewerApi (runCleanup s) = viewerApi s"
    by (simp add: runCleanup_def split: option.splits)
  then show ?thesis
    by (cases "runCleanup s" rule: searchEffect_cases) simp_all
qed

lemma closure_viewerApi:
  "viewerApi (nextMatch ms i s) = viewerApi s"
  "viewerApi (prevMatch ms i s) = viewerApi s"
  by (simp_all add: nextMatch_def prevMatch_def scrollToMatch_def scrollToPage_def Let_def
      split: option.splits)

text \<open>The object that the host holds is never replaced.\<close>

lemma viewerApi_step:
  assumes "viewerApi s = Some api"
  shows "viewerApi (pdf_step s e) = Some api"
proof (cases e)
  case (SetSearchQuery q)
  have "viewerApi (searchEffect (runCleanup (s\<lparr>searchQuery := q\<rparr>))) = viewerApi s"
    by (simp add: restart_viewerApi)
  with SetSearchQuery assms show ?thesis by (simp add: setSearchQuery_def)
next
  case (DocumentLoaded n)
  have "viewerApi (searchEffect (runCleanup (s\<lparr>pdfDocRef := True, numPages := Some n\<rparr>)))
      = viewerApi s"
    by (simp add: restart_viewerApi)
  with DocumentLoaded assms show ?thesis by (simp add: handleDocumentLoadSuccess_def)
next
  case (Resume rid ext)
  have "viewerApi (publish r ms t) = viewerApi t" for r ms t
    by (simp add: publish_def scrollToPage_def Let_def)
  then have "viewerApi (resumeRun rid ext s) = viewerApi s"
    by (cases rid ext s rule: resumeRun_cases) simp_all
  with Resume assms show ?thesis by simp
next
  case NextMatch
  with assms show ?thesis by (simp add: onSearchNext_def closure_viewerApi)
next
  case PrevMatch
  with assms show ?thesis by (simp add: onSearchPrev_def closure_viewerApi)
next
  case ViewerReady
  with assms show ?thesis by (simp add: viewerReadyEffect_def)
next
  case ApiNextMatch
  with assms show ?thesis
    by (cases api) (simp add: apiNextMatch_def closure_viewerApi)
next
  case ApiPrevMatch
  with assms show ?thesis
    by (cases api) (simp add: apiPrevMatch_def closure_viewerApi)
qed

lemma viewerApi_foldl:
  "viewerApi s = Some api \<Longrightarrow> viewerApi (foldl pdf_step s es) = Some api"
  by (induction es arbitrary: s) (simp_all add: viewerApi_step)

text \<open>
  Handed over after the first render, the object carries the callbacks of that render,
  which read an empty match list.
\<close>

lemma mount_viewerApi: "viewerApi (pdf_run (ViewerReady # es)) = Some ([], 0)"
proof -
  have "viewerApi (pdf_step pdf_init ViewerReady) = Some ([], 0)"
    by (simp add: viewerReadyEffect_def pdf_init_def)
  then show ?thesis by (simp add: pdf_run_def viewerApi_foldl del: pdf_step.simps)
qed

lemma api_trace_state:
  "searchMatches (pdf_run api_trace) = [1, 3]"
  "searchIndex (pdf_run api_trace) = 0"
  "scrolls (pdf_run api_trace) = [1]"
  "searchIndex (pdf_step (pdf_run api_trace) NextMatch) = 1"
  "scrolls (pdf_step (pdf_run api_trace) NextMatch) = [1, 3]"
  by (code_simp)+

text \<open>
  C5. The viewer API is the documented way for a host to move between matches. In a
  viewer whose host passes \<^verbatim>\<open>onViewerReady\<close> from the start, \<^verbatim>\<open>nextMatch\<close> and
  \<^verbatim>\<open>prevMatch\<close> of the object handed over never change anything, whatever has happened
  since. After the search for ``Fee'' has published the matches on pages 1 and 3 with
  active index 0, a call of either leaves the index at 0 and requests no scroll, where
  the toolbar's next button moves the index to 1 and scrolls to page 3.
\<close>

theorem viewer_api_navigation_stale:
  "pdf_step (pdf_run (ViewerReady # es)) ApiNextMatch = pdf_run (ViewerReady # es)
   \<and> pdf_step (pdf_run (ViewerReady # es)) ApiPrevMatch = pdf_run (ViewerReady # es)
   \<and> searchMatches (pdf_run api_trace) = [1, 3]
   \<and> searchIndex (pdf_run api_trace) = 0
   \<and> searchIndex (pdf_step (pdf_run api_trace) ApiNextMatch) = 0
   \<and> searchIndex (pdf_step (pdf_run api_trace) ApiPrevMatch) = 0
   \<and> scrolls (pdf_step (pdf_run api_trace) ApiNextMatch) = scrolls (pdf_run api_trace)
   \<and> searchIndex (pdf_step (pdf_run api_trace) NextMatch) = 1
   \<and> scrolls (pdf_step (pdf_run api_trace) NextMatch) = scrolls (pdf_run api_trace) @ [3]"
proof -
  have inert: "pdf_step (pdf_run (ViewerReady # es)) ApiNextMatch = pdf_run (ViewerReady # es)
      \<and> pdf_step (pdf_run (ViewerReady # es)) ApiPrevMatch = pdf_run (ViewerReady # es)"
    for es
    by (simp add: apiNextMatch_def apiPrevMatch_def mount_viewerApi closure_empty)
  have "pdf_step (pdf_run api_trace) ApiNextMatch = pdf_run api_trace"
    and "pdf_step (pdf_run api_trace) ApiPrevMatch = pdf_run api_trace"
    using inert [of nav_trace] by (simp_all add: api_trace_def del: pdf_step.simps)
  then show ?thesis
    using inert [of es] api_trace_state by (simp del: pdf_step.simps)
qed

text \<open>
  Handed over later, the object reads the matches of the render it belongs to. After a
  second search has published page 2 only, its \<^verbatim>\<open>nextMatch\<close> still steps through the
  two matches of the first search: the index becomes 1, which is no index into the
  current match list, and the viewer scrolls to page 3.
\<close>

lemma late_viewer_api_navigation:
  "viewerApi (pdf_run late_api_trace) = Some ([1, 3], 0)"
  "searchMatches (pdf_run late_api_trace) = [2]"
  "searchIndex (pdf_run late_api_trace) = 0"
  "searchMatches (pdf_step (pdf_run late_api_trace) ApiNextMatch) = [2]"
  "searchIndex (pdf_step (pdf_run late_api_trace) ApiNextMatch) = 1"
  "currentPage (pdf_step (pdf_run late_api_trace) ApiNextMatch) = 3"
  by (code_simp)+

lemma restart_log_frame:
  "commits (searchEffect (runCleanup s)) = commits s"
  "scrolls (searchEffect (runCleanup s)) = scrolls s"
  "currentPage (searchEffect (runCleanup s)) = currentPage s"
  "searchQuery (searchEffect (runCleanup s)) = searchQuery s"
  "numPages (searchEffect (runCleanup s)) = numPages s"
  "pdfDocRef (searchEffect (runCleanup s)) = pdfDocRef s"
  by (cases "runCleanup s" rule: searchEffect_cases; simp add: runCleanup_frame)+

lemma restart_matches:
  "searchMatches (searchEffect (runCleanup s)) = searchMatches s
   \<or> searchMatches (searchEffect (runCleanup s)) = []"
  by (cases "runCleanup s" rule: searchEffect_cases) (simp_all add: runCleanup_frame)

text \<open>Every run that existed before the effect re-ran is cancelled afterwards.\<close>

lemma restart_cancels:
  assumes "\<forall>i < length (runs s). cleanup s \<noteq> Some i \<longrightarrow> run_cancelled (runs s ! i)"
    and "rid < length (runs s)"
  shows "rid < length (runs (searchEffect (runCleanup s)))
       \<and> run_cancelled (runs (searchEffect (runCleanup s)) ! rid)
       \<and> run_status (runs (searchEffect (runCleanup s)) ! rid) = run_status (runs s ! rid)
       \<and> run_pageNum (runs (searchEffect (runCleanup s)) ! rid) = run_pageNum (runs s ! rid)
       \<and> run_matches (runs (searchEffect (runCleanup s)) ! rid) = run_matches (runs s ! rid)"
proof -
  let ?c = "runCleanup s"
  have c: "rid < length (runs ?c)" "run_cancelled (runs ?c ! rid)"
    "run_status (runs ?c ! rid) = run_status (runs s ! rid)"
    "run_pageNum (runs ?c ! rid) = run_pageNum (runs s ! rid)"
    "run_matches (runs ?c ! rid) = run_matches (runs s ! rid)"
    using assms by (auto simp: runCleanup_frame runCleanup_nth)
  show ?thesis
    by (cases ?c rule: searchEffect_cases) (use c in \<open>simp_all add: nth_append\<close>)
qed

text \<open>The only step that extends the log of publications.\<close>

lemma commit_step:
  assumes "commits (pdf_step s e) \<noteq> commits s"
  obtains rid ext where "e = Resume rid ext" "rid < length (runs s)"
    "run_status (runs s ! rid) = Pending" "\<not> run_cancelled (runs s ! rid)"
    "commits (pdf_step s e) = commits s @ [rid]"
    "searchMatches (pdf_step s e) = run_matches (runs (pdf_step s e) ! rid)"
    "searchIndex (pdf_step s e) = 0"
    "run_pageNum (runs (pdf_step s e) ! rid) = run_numPages (runs s ! rid) + 1 \<or> \<not> run_ok (runs s ! rid)"
    "run_numPages (runs (pdf_step s e) ! rid) = run_numPages (runs s ! rid)"
    "numPages (pdf_step s e) = numPages s"
    "length (runs (pdf_step s e)) = length (runs s)"
proof (cases e)
  case (SetSearchQuery q)
  with assms show ?thesis
    by (simp add: setSearchQuery_def restart_log_frame split: if_splits)
next
  case (DocumentLoaded n)
  with assms show ?thesis
    by (simp add: handleDocumentLoadSuccess_def restart_log_frame split: if_splits)
next
  case (Resume rid ext)
  show ?thesis
  proof (cases rid ext s rule: resumeRun_cases)
    case idle
    with Resume assms show ?thesis by simp
  next
    case reject
    with Resume assms show ?thesis by simp
  next
    case (advance ms)
    with Resume assms show ?thesis by simp
  next
    case (finish ms)
    with Resume assms show ?thesis by simp
  next
    case (publish ms)
    have "run_ok (runs s ! rid) \<Longrightarrow> run_pageNum (runs s ! rid) = run_numPages (runs s ! rid)"
      using publish(2,4) by (simp add: run_ok_def)
    with publish Resume show ?thesis
      by (intro that [of rid ext]) (auto simp: publish_frame)
  qed
next
  case NextMatch
  with assms show ?thesis by (simp add: nav_frame)
next
  case PrevMatch
  with assms show ?thesis by (simp add: nav_frame)
next
  case ViewerReady
  with assms show ?thesis by (simp add: api_frame)
next
  case ApiNextMatch
  with assms show ?thesis by (simp add: api_frame)
next
  case ApiPrevMatch
  with assms show ?thesis by (simp add: api_frame)
qed

lemma restart_nth:
  assumes "rid < length (runs s)"
  shows "rid < length (runs (searchEffect (runCleanup s)))"
    "run_cancelled (runs s ! rid) \<Longrightarrow> run_cancelled (runs (searchEffect (runCleanup s)) ! rid)"
    "run_status (runs (searchEffect (runCleanup s)) ! rid) = run_status (runs s ! rid)"
    "run_pageNum (runs (searchEffect (runCleanup s)) ! rid) = run_pageNum (runs s ! rid)"
    "run_matches (runs (searchEffect (runCleanup s)) ! rid) = run_matches (runs s ! rid)"
proof -
  let ?c = "runCleanup s"
  have c: "rid < length (runs ?c)"
    "run_cancelled (runs s ! rid) \<Longrightarrow> run_cancelled (runs ?c ! rid)"
    "run_status (runs ?c ! rid) = run_status (runs s ! rid)"
    "run_pageNum (runs ?c ! rid) = run_pageNum (runs s ! rid)"
    "run_matches (runs ?c ! rid) = run_matches (runs s ! rid)"
    using assms by (auto simp: runCleanup_frame runCleanup_nth)
  show "rid < length (runs (searchEffect ?c))"
    by (cases ?c rule: searchEffect_cases) (use c in \<open>simp_all add: nth_append\<close>)
  show "run_cancelled (runs s ! rid) \<Longrightarrow> run_cancelled (runs (searchEffect ?c) ! rid)"
    by (cases ?c rule: searchEffect_cases) (use c in \<open>simp_all add: nth_append\<close>)
  show "run_status (runs (searchEffect ?c) ! rid) = run_status (runs s ! rid)"
    by (cases ?c rule: searchEffect_cases) (use c in \<open>simp_all add: nth_append\<close>)
  show "run_pageNum (runs (searchEffect ?c) ! rid) = run_pageNum (runs s ! rid)"
    by (cases ?c rule: searchEffect_cases) (use c in \<open>simp_all add: nth_append\<close>)
  show "run_matches (runs (searchEffect ?c) ! rid) = run_matches (runs s ! rid)"
    by (cases ?c rule: searchEffect_cases) (use c in \<open>simp_all add: nth_append\<close>)
qed

lemma retired_restart:
  assumes "retired rid s"
  shows "retired rid (searchEffect (runCleanup s))"
  using assms restart_nth [of rid s]
  by (auto simp: retired_def restart_log_frame)

lemma rejected_at_restart:
  assumes "rejected_at rid page ms s"
  shows "rejected_at rid page ms (searchEffect (runCleanup s))"
  using assms restart_nth [of rid s]
  by (auto simp: rejected_at_def restart_log_frame)

lemma retired_step:
  assumes "retired rid s"
  shows "retired rid (pdf_step s e)"
proof (cases e)
  case (SetSearchQuery q)
  have "retired rid (s\<lparr>searchQuery := q\<rparr>)" using assms by (simp add: retired_def)
  then show ?thesis using SetSearchQuery assms
    by (simp add: setSearchQuery_def retired_restart)
next
  case (DocumentLoaded n)
  have "retired rid (s\<lparr>pdfDocRef := True, numPages := Some n\<rparr>)"
    and "retired rid (s\<lparr>pdfDocRef := True\<rparr>)"
    using assms by (simp_all add: retired_def)
  then show ?thesis using DocumentLoaded
    by (simp add: handleDocumentLoadSuccess_def retired_restart)
next
  case (Resume r ext)
  show ?thesis
  proof (cases r ext s rule: resumeRun_cases)
    case idle
    with Resume assms show ?thesis by simp
  next
    case reject
    with Resume assms show ?thesis by (auto simp: retired_def nth_update_if)
  next
    case (advance ms)
    with Resume assms show ?thesis by (auto simp: retired_def nth_update_if)
  next
    case (finish ms)
    with Resume assms show ?thesis by (auto simp: retired_def nth_update_if)
  next
    case (publish ms)
    with Resume assms show ?thesis
      by (auto simp: retired_def nth_update_if publish_frame)
  qed
next
  case NextMatch
  with assms show ?thesis by (simp add: retired_def nav_frame)
next
  case PrevMatch
  with assms show ?thesis by (simp add: retired_def nav_frame)
next
  case ViewerReady
  with assms show ?thesis by (simp add: retired_def api_frame)
next
  case ApiNextMatch
  with assms show ?thesis by (simp add: retired_def api_frame)
next
  case ApiPrevMatch
  with assms show ?thesis by (simp add: retired_def api_frame)
qed

lemma rejected_at_step:
  assumes "rejected_at rid page ms s"
  shows "rejected_at rid page ms (pdf_step s e)"
proof (cases e)
  case (SetSearchQuery q)
  have "rejected_at rid page ms (s\<lparr>searchQuery := q\<rparr>)"
    using assms by (simp add: rejected_at_def)
  then show ?thesis using SetSearchQuery assms
    by (simp add: setSearchQuery_def rejected_at_restart)
next
  case (DocumentLoaded n)
  have "rejected_at rid page ms (s\<lparr>pdfDocRef := True, numPages := Some n\<rparr>)"
    and "rejected_at rid page ms (s\<lparr>pdfDocRef := True\<rparr>)"
    using assms by (simp_all add: rejected_at_def)
  then show ?thesis using DocumentLoaded
    by (simp add: handleDocumentLoadSuccess_def rejected_at_restart)
next
  case (Resume r ext)
  show ?thesis
  proof (cases r ext s rule: resumeRun_cases)
    case idle
    with Resume assms show ?thesis by simp
  next
    case reject
    with Resume assms show ?thesis by (auto simp: rejected_at_def nth_update_if)
  next
    case (advance ms')
    with Resume assms show ?thesis by (auto simp: rejected_at_def nth_update_if)
  next
    case (finish ms')
    with Resume assms show ?thesis by (auto simp: rejected_at_def nth_update_if)
  next
    case (publish ms')
    with Resume assms show ?thesis
      by (auto simp: rejected_at_def nth_update_if publish_frame)
  qed
next
  case NextMatch
  with assms show ?thesis by (simp add: rejected_at_def nav_frame)
next
  case PrevMatch
  with assms show ?thesis by (simp add: rejected_at_def nav_frame)
next
  case ViewerReady
  with assms show ?thesis by (simp add: rejected_at_def api_frame)
next
  case ApiNextMatch
  with assms show ?thesis by (simp add: rejected_at_def api_frame)
next
  case ApiPrevMatch
  with assms show ?thesis by (simp add: rejected_at_def api_frame)
qed

lemma retired_foldl: "retired rid s \<Longrightarrow> retired rid (foldl pdf_step s es)"
  by (induction es arbitrary: s) (simp_all add: retired_step)

lemma rejected_at_foldl:
  "rejected_at rid page ms s \<Longrightarrow> rejected_at rid page ms (foldl pdf_step s es)"
  by (induction es arbitrary: s) (simp_all add: rejected_at_step)

text \<open>Resuming a run that is cancelled or not the newest publishes nothing.\<close>

lemma stale_resume_silent:
  assumes "cleanup_inv s" and "rid < length (runs s)"
    and "Suc rid < length (runs s) \<or> run_cancelled (runs s ! rid)"
  shows "searchMatches (resumeRun rid ext s) = searchMatches s
       \<and> searchIndex (resumeRun rid ext s) = searchIndex s
       \<and> scrolls (resumeRun rid ext s) = scrolls s
       \<and> currentPage (resumeRun rid ext s) = currentPage s
       \<and> commits (resumeRun rid ext s) = commits s"
proof -
  have c: "run_cancelled (runs s ! rid)"
    using assms by (auto simp: cleanup_inv_def)
  show ?thesis
  proof (cases rid ext s rule: resumeRun_cases)
    case idle
    then show ?thesis by simp
  next
    case reject
    then show ?thesis by simp
  next
    case (advance ms)
    then show ?thesis by simp
  next
    case (finish ms)
    then show ?thesis by simp
  next
    case (publish ms)
    with c show ?thesis by simp
  qed
qed

lemma matches_change_step:
  assumes "searchMatches (pdf_step s e) \<noteq> searchMatches s"
  shows "commits (pdf_step s e) \<noteq> commits s \<or> searchMatches (pdf_step s e) = []"
proof (cases e)
  case (SetSearchQuery q)
  with assms restart_matches [of "s\<lparr>searchQuery := q\<rparr>"] show ?thesis
    by (auto simp: setSearchQuery_def split: if_splits)
next
  case (DocumentLoaded n)
  with assms restart_matches [of "s\<lparr>pdfDocRef := True, numPages := Some n\<rparr>"] show ?thesis
    by (auto simp: handleDocumentLoadSuccess_def split: if_splits)
next
  case (Resume rid ext)
  show ?thesis
  proof (cases rid ext s rule: resumeRun_cases)
    case idle
    with Resume assms show ?thesis by simp
  next
    case reject
    with Resume assms show ?thesis by simp
  next
    case (advance ms)
    with Resume assms show ?thesis by simp
  next
    case (finish ms)
    with Resume assms show ?thesis by simp
  next
    case (publish ms)
    with Resume show ?thesis by (simp add: publish_frame)
  qed
next
  case NextMatch
  with assms show ?thesis by (simp add: nav_frame)
next
  case PrevMatch
  with assms show ?thesis by (simp add: nav_frame)
next
  case ViewerReady
  with assms show ?thesis by (simp add: api_frame)
next
  case ApiNextMatch
  with assms show ?thesis by (simp add: api_frame)
next
  case ApiPrevMatch
  with assms show ?thesis by (simp add: api_frame)
qed

lemma newest_publishes:
  assumes "cleanup_inv s" and "commits (pdf_step s e) \<noteq> commits s"
  shows "runs s \<noteq> [] \<and> (\<exists>ext. e = Resume (length (runs s) - 1) ext)
       \<and> commits (pdf_step s e) = commits s @ [length (runs s) - 1]
       \<and> \<not> run_cancelled (last (runs s))
       \<and> run_query (last (runs s)) = toLowerCase (trim (searchQuery s))
       \<and> numPages s = Some (run_numPages (last (runs s)))"
proof -
  from assms(2) obtain rid ext where r: "e = Resume rid ext" "rid < length (runs s)"
    "\<not> run_cancelled (runs s ! rid)" "commits (pdf_step s e) = commits s @ [rid]"
    by (rule commit_step)
  then have c: "cleanup s = Some rid" using assms(1) by (auto simp: cleanup_inv_def)
  then have k: "Suc rid = length (runs s)"
    "numPages s = Some (run_numPages (runs s ! rid))"
    "run_query (runs s ! rid) = toLowerCase (trim (searchQuery s))"
    using assms(1) by (auto simp: cleanup_inv_def)
  have ne: "runs s \<noteq> []" using r(2) by auto
  have i: "length (runs s) - 1 = rid" using k(1) by simp
  have l: "last (runs s) = runs s ! rid" using ne i by (simp add: last_conv_nth)
  from r k ne l i show ?thesis by auto
qed

lemma new_query_retires:
  assumes "cleanup_inv s" and "commits_inv s" and "rid < length (runs s)"
    and "run_status (runs s ! rid) = Pending" and "q \<noteq> searchQuery s"
  shows "retired rid (pdf_step s (SetSearchQuery q))
       \<and> run_cancelled (runs (pdf_step s (SetSearchQuery q)) ! rid)"
proof -
  let ?u = "s\<lparr>searchQuery := q\<rparr>"
  have "\<forall>i < length (runs ?u). cleanup ?u \<noteq> Some i \<longrightarrow> run_cancelled (runs ?u ! i)"
    using assms(1) by (simp add: cleanup_inv_def)
  from restart_cancels [OF this, of rid] assms(3)
  have c: "rid < length (runs (searchEffect (runCleanup ?u)))"
    "run_cancelled (runs (searchEffect (runCleanup ?u)) ! rid)"
    by simp_all
  have "rid \<notin> set (commits s)"
    using assms(2,4) by (auto simp: commits_inv_def)
  then have "rid \<notin> set (commits (searchEffect (runCleanup ?u)))"
    by (simp add: restart_log_frame)
  with c assms(5) show ?thesis by (simp add: retired_def setSearchQuery_def)
qed

text \<open>
  C1. In every reachable state: a step publishes only if it resumes the most recently
  started run, which is then not cancelled and carries the current query; the match list
  otherwise changes only by being cleared; resuming a run that is cancelled or has been
  superseded leaves match list, active index, scroll log, current page and publication
  log unchanged; and once a different query is set while a run is still pending, that
  run is cancelled and never publishes, whatever happens afterwards.
\<close>

theorem superseded_search_never_commits:
  "let s = pdf_run es in
     (\<forall>e. commits (pdf_step s e) \<noteq> commits s \<longrightarrow>
        runs s \<noteq> [] \<and> (\<exists>ext. e = Resume (length (runs s) - 1) ext)
        \<and> commits (pdf_step s e) = commits s @ [length (runs s) - 1]
        \<and> \<not> run_cancelled (last (runs s))
        \<and> run_query (last (runs s)) = toLowerCase (trim (searchQuery s)))
   \<and> (\<forall>e. searchMatches (pdf_step s e) \<noteq> searchMatches s \<longrightarrow>
        commits (pdf_step s e) \<noteq> commits s \<or> searchMatches (pdf_step s e) = [])
   \<and> (\<forall>rid ext. rid < length (runs s)
          \<and> (Suc rid < length (runs s) \<or> run_cancelled (runs s ! rid)) \<longrightarrow>
        searchMatches (pdf_step s (Resume rid ext)) = searchMatches s
        \<and> searchIndex (pdf_step s (Resume rid ext)) = searchIndex s
        \<and> scrolls (pdf_step s (Resume rid ext)) = scrolls s
        \<and> currentPage (pdf_step s (Resume rid ext)) = currentPage s
        \<and> commits (pdf_step s (Resume rid ext)) = commits s)
   \<and> (\<forall>rid q es'. rid < length (runs s) \<and> run_status (runs s ! rid) = Pending
          \<and> q \<noteq> searchQuery s \<longrightarrow>
        run_cancelled (runs (pdf_step s (SetSearchQuery q)) ! rid)
        \<and> rid \<notin> set (commits (foldl pdf_step (pdf_step s (SetSearchQuery q)) es')))"
proof -
  define s where "s = pdf_run es"
  have inv: "cleanup_inv s" "commits_inv s"
    using reachable_invariants [of es] by (simp_all add: s_def)
  have a: "\<forall>e. commits (pdf_step s e) \<noteq> commits s \<longrightarrow>
        runs s \<noteq> [] \<and> (\<exists>ext. e = Resume (length (runs s) - 1) ext)
        \<and> commits (pdf_step s e) = commits s @ [length (runs s) - 1]
        \<and> \<not> run_cancelled (last (runs s))
        \<and> run_query (last (runs s)) = toLowerCase (trim (searchQuery s))"
    using newest_publishes [OF inv(1)] by blast
  have b: "\<forall>e. searchMatches (pdf_step s e) \<noteq> searchMatches s \<longrightarrow>
        commits (pdf_step s e) \<noteq> commits s \<or> searchMatches (pdf_step s e) = []"
    using matches_change_step by blast
  have c: "\<forall>rid ext. rid < length (runs s)
          \<and> (Suc rid < length (runs s) \<or> run_cancelled (runs s ! rid)) \<longrightarrow>
        searchMatches (pdf_step s (Resume rid ext)) = searchMatches s
        \<and> searchIndex (pdf_step s (Resume rid ext)) = searchIndex s
        \<and> scrolls (pdf_step s (Resume rid ext)) = scrolls s
        \<and> currentPage (pdf_step s (Resume rid ext)) = currentPage s
        \<and> commits (pdf_step s (Resume rid ext)) = commits s"
    using stale_resume_silent [OF inv(1)] by simp
  have d: "\<forall>rid q es'. rid < length (runs s) \<and> run_status (runs s ! rid) = Pending
          \<and> q \<noteq> searchQuery s \<longrightarrow>
        run_cancelled (runs (pdf_step s (SetSearchQuery q)) ! rid)
        \<and> rid \<notin> set (commits (foldl pdf_step (pdf_step s (SetSearchQuery q)) es'))"
  proof (intro allI impI)
    fix rid q es'
    assume h: "rid < length (runs s) \<and> run_status (runs s ! rid) = Pending
          \<and> q \<noteq> searchQuery s"
    then have r: "retired rid (pdf_step s (SetSearchQuery q))"
      "run_cancelled (runs (pdf_step s (SetSearchQuery q)) ! rid)"
      using new_query_retires [OF inv, of rid q] by simp_all
    from retired_foldl [OF r(1), of es'] r(2)
    show "run_cancelled (runs (pdf_step s (SetSearchQuery q)) ! rid)
        \<and> rid \<notin> set (commits (foldl pdf_step (pdf_step s (SetSearchQuery q)) es'))"
      by (simp add: retired_def)
  qed
  show ?thesis
    unfolding Let_def
    using a [unfolded s_def] b [unfolded s_def] c [unfolded s_def] d [unfolded s_def]
    by blast
qed

lemma market_trace_state:
  "length (runs (pdf_run market_trace)) = 1"
  "run_status (runs (pdf_run market_trace) ! 0) = Pending"
  "searchQuery (pdf_run market_trace) = ''market''"
  "commits (foldl pdf_step (pdf_step (pdf_run market_trace) (SetSearchQuery ''budget''))
      budget_events) = [1]"
  "searchMatches (foldl pdf_step (pdf_step (pdf_run market_trace) (SetSearchQuery ''budget''))
      budget_events) = [2]"
  by (code_simp)+

theorem superseded_search_never_commits_witness:
  "0 < length (runs (pdf_run market_trace))
   \<and> run_status (runs (pdf_run market_trace) ! 0) = Pending
   \<and> ''budget'' \<noteq> searchQuery (pdf_run market_trace)
   \<and> run_cancelled (runs (pdf_step (pdf_run market_trace) (SetSearchQuery ''budget'')) ! 0)
   \<and> 0 \<notin> set (commits (foldl pdf_step
        (pdf_step (pdf_run market_trace) (SetSearchQuery ''budget'')) budget_events))
   \<and> commits (foldl pdf_step
        (pdf_step (pdf_run market_trace) (SetSearchQuery ''budget'')) budget_events) = [1]
   \<and> searchMatches (foldl pdf_step
        (pdf_step (pdf_run market_trace) (SetSearchQuery ''budget'')) budget_events) = [2]"
proof -
  have h: "0 < length (runs (pdf_run market_trace))
      \<and> run_status (runs (pdf_run market_trace) ! 0) = Pending
      \<and> ''budget'' \<noteq> searchQuery (pdf_run market_trace)"
    by (simp add: market_trace_state)
  from superseded_search_never_commits [of market_trace]
  have "\<forall>rid q es'. rid < length (runs (pdf_run market_trace))
          \<and> run_status (runs (pdf_run market_trace) ! rid) = Pending
          \<and> q \<noteq> searchQuery (pdf_run market_trace) \<longrightarrow>
        run_cancelled (runs (pdf_step (pdf_run market_trace) (SetSearchQuery q)) ! rid)
        \<and> rid \<notin> set (commits (foldl pdf_step
              (pdf_step (pdf_run market_trace) (SetSearchQuery q)) es'))"
    unfolding Let_def by blast
  from this [rule_format, of 0 "''budget''" budget_events] h
  show ?thesis by (simp del: pdf_step.simps add: market_trace_state)
qed

text \<open>
  C4. After every step from a reachable state the published match list is strictly
  ascending and free of duplicates; when the step is a publication, the list is the
  publishing run's own accumulation, started empty with that run, and every page number
  in it lies between 1 and the page count.
\<close>

theorem committed_matches_strictly_ascending:
  "let s = pdf_run es; s' = pdf_step s e in
     sorted_wrt (<) (searchMatches s') \<and> distinct (searchMatches s')
   \<and> (commits s' \<noteq> commits s \<longrightarrow>
        (\<exists>n rid. numPages s' = Some n
           \<and> (\<forall>p\<in>set (searchMatches s'). 1 \<le> p \<and> p \<le> n)
           \<and> commits s' = commits s @ [rid]
           \<and> searchMatches s' = run_matches (runs s' ! rid)))"
proof -
  define s where "s = pdf_run es"
  define s' where "s' = pdf_step s e"
  have s': "s' = pdf_run (es @ [e])" by (simp add: s'_def s_def pdf_run_snoc)
  have inv: "cleanup_inv s" using reachable_invariants [of es] by (simp add: s_def)
  have inv': "matches_inv s'" "runs_inv s'"
    using reachable_invariants [of "es @ [e]"] by (simp_all add: s')
  have sorted: "sorted_wrt (<) (searchMatches s')"
    using inv'(1) by (simp add: matches_inv_def)
  then have dist: "distinct (searchMatches s')"
    by (simp add: strict_sorted_iff)
  have bound: "commits s' \<noteq> commits s \<longrightarrow>
        (\<exists>n rid. numPages s' = Some n
           \<and> (\<forall>p\<in>set (searchMatches s'). 1 \<le> p \<and> p \<le> n)
           \<and> commits s' = commits s @ [rid]
           \<and> searchMatches s' = run_matches (runs s' ! rid))"
  proof
    assume ch: "commits s' \<noteq> commits s"
    then have ch': "commits (pdf_step s e) \<noteq> commits s" by (simp add: s'_def)
    from ch' obtain rid ext where r: "e = Resume rid ext" "rid < length (runs s)"
      "commits (pdf_step s e) = commits s @ [rid]"
      "searchMatches (pdf_step s e) = run_matches (runs (pdf_step s e) ! rid)"
      "run_numPages (runs (pdf_step s e) ! rid) = run_numPages (runs s ! rid)"
      "numPages (pdf_step s e) = numPages s"
      "length (runs (pdf_step s e)) = length (runs s)"
      by (rule commit_step)
    from newest_publishes [OF inv ch'] r(1)
    have np: "numPages s = Some (run_numPages (last (runs s)))"
      and rid: "rid = length (runs s) - 1" and ne: "runs s \<noteq> []"
      by auto
    have l: "last (runs s) = runs s ! rid" using ne rid by (simp add: last_conv_nth)
    let ?n = "run_numPages (runs s ! rid)"
    have ok: "run_ok (runs s' ! rid)"
      using inv'(2) r(2,7) by (simp add: runs_inv_def s'_def)
    have "\<forall>p\<in>set (searchMatches s'). 1 \<le> p \<and> p \<le> ?n"
      using ok r(4,5) by (auto simp: run_ok_def s'_def)
    moreover have "numPages s' = Some ?n" using np l r(6) by (simp add: s'_def)
    ultimately show "\<exists>n rid. numPages s' = Some n
           \<and> (\<forall>p\<in>set (searchMatches s'). 1 \<le> p \<and> p \<le> n)
           \<and> commits s' = commits s @ [rid]
           \<and> searchMatches s' = run_matches (runs s' ! rid)"
      using r(3,4) unfolding s'_def by blast
  qed
  show ?thesis
    unfolding Let_def
    using sorted [unfolded s'_def s_def] dist [unfolded s'_def s_def]
      bound [unfolded s'_def s_def]
    by blast
qed

lemma nav_trace_commit:
  "commits (pdf_run (butlast nav_trace)) = []"
  "commits (pdf_step (pdf_run (butlast nav_trace)) (last nav_trace)) = [0]"
  "searchMatches (pdf_step (pdf_run (butlast nav_trace)) (last nav_trace)) = [1, 3]"
  "numPages (pdf_step (pdf_run (butlast nav_trace)) (last nav_trace)) = Some 3"
  by (code_simp)+

theorem committed_matches_strictly_ascending_witness:
  "commits (pdf_step (pdf_run (butlast nav_trace)) (last nav_trace))
     \<noteq> commits (pdf_run (butlast nav_trace))
   \<and> searchMatches (pdf_step (pdf_run (butlast nav_trace)) (last nav_trace)) = [1, 3]
   \<and> sorted_wrt (<) (searchMatches (pdf_step (pdf_run (butlast nav_trace)) (last nav_trace)))
   \<and> (\<exists>n. numPages (pdf_step (pdf_run (butlast nav_trace)) (last nav_trace)) = Some n
        \<and> (\<forall>p\<in>set (searchMatches (pdf_step (pdf_run (butlast nav_trace)) (last nav_trace))).
              1 \<le> p \<and> p \<le> n))"
proof -
  have h: "commits (pdf_step (pdf_run (butlast nav_trace)) (last nav_trace))
     \<noteq> commits (pdf_run (butlast nav_trace))"
    by (simp del: pdf_step.simps add: nav_trace_commit)
  from committed_matches_strictly_ascending [of "butlast nav_trace" "last nav_trace"]
  show ?thesis
    unfolding Let_def using h nav_trace_commit(3) by blast
qed

lemma resume_text_advance:
  assumes "rid < length (runs s)" and "run_status (runs s ! rid) = Pending"
    and "run_pageNum (runs s ! rid) < run_numPages (runs s ! rid)"
  shows "resumeRun rid (TextItems items) s =
           s\<lparr>runs := (runs s)[rid := (runs s ! rid)
              \<lparr>run_matches := run_matches (runs s ! rid) @
                  filter (\<lambda>p. pageMatches (run_query (runs s ! rid)) items)
                    [run_pageNum (runs s ! rid)],
               run_pageNum := run_pageNum (runs s ! rid) + 1\<rparr>]\<rparr>"
  using assms by (simp add: resumeRun_def Let_def)

lemma resume_text_publish:
  assumes "rid < length (runs s)" and "run_status (runs s ! rid) = Pending"
    and "run_pageNum (runs s ! rid) = run_numPages (runs s ! rid)"
    and "\<not> run_cancelled (runs s ! rid)"
  shows "searchMatches (resumeRun rid (TextItems items) s) =
           run_matches (runs s ! rid) @
             filter (\<lambda>p. pageMatches (run_query (runs s ! rid)) items)
               [run_pageNum (runs s ! rid)]"
    and "searchIndex (resumeRun rid (TextItems items) s) = 0"
    and "commits (resumeRun rid (TextItems items) s) = commits s @ [rid]"
  using assms by (simp_all add: resumeRun_def Let_def publish_frame)

lemma scan_to_end:
  assumes "rid < length (runs s)" and "run_status (runs s ! rid) = Pending"
    and "\<not> run_cancelled (runs s ! rid)"
    and "run_pageNum (runs s ! rid) = k" and "run_numPages (runs s ! rid) = n"
    and "run_matches (runs s ! rid) = ms" and "run_query (runs s ! rid) = q"
    and "n - k = d" and "k \<le> n"
  shows "searchMatches (foldl pdf_step s (deliver rid items_of [k..<Suc n])) =
           ms @ filter (\<lambda>p. pageMatches q (items_of p)) [k..<Suc n]
       \<and> searchIndex (foldl pdf_step s (deliver rid items_of [k..<Suc n])) = 0
       \<and> commits (foldl pdf_step s (deliver rid items_of [k..<Suc n])) = commits s @ [rid]"
  using assms
proof (induction d arbitrary: s k ms)
  case 0
  then have kn: "k = n" by simp
  have pn: "run_pageNum (runs s ! rid) = run_numPages (runs s ! rid)"
    using 0 kn by simp
  show ?case
    using resume_text_publish [OF "0.prems"(1,2) pn "0.prems"(3), of "items_of n"] 0 kn
    by (simp add: deliver_def)
next
  case (Suc d)
  then have kn: "k < n" by simp
  define rest where "rest = [Suc k..<Suc n]"
  define s1 where "s1 = resumeRun rid (TextItems (items_of k)) s"
  define ms1 where "ms1 = ms @ filter (\<lambda>p. pageMatches q (items_of k)) [k]"
  have lt: "run_pageNum (runs s ! rid) < run_numPages (runs s ! rid)"
    using Suc.prems kn by simp
  have s1: "s1 = s\<lparr>runs := (runs s)[rid := (runs s ! rid)
              \<lparr>run_matches := ms1, run_pageNum := k + 1\<rparr>]\<rparr>"
    using resume_text_advance [OF Suc.prems(1,2) lt, of "items_of k"] Suc.prems
    by (simp add: s1_def ms1_def)
  have upt: "[k..<Suc n] = k # rest"
    using kn by (simp add: upt_conv_Cons rest_def)
  have IH: "searchMatches (foldl pdf_step s1 (deliver rid items_of rest)) =
           ms1 @ filter (\<lambda>p. pageMatches q (items_of p)) rest
       \<and> searchIndex (foldl pdf_step s1 (deliver rid items_of rest)) = 0
       \<and> commits (foldl pdf_step s1 (deliver rid items_of rest)) = commits s1 @ [rid]"
    unfolding rest_def using Suc.prems kn by (intro Suc.IH) (simp_all add: s1)
  have c: "commits s1 = commits s" by (simp add: s1)
  have m: "ms1 @ filter (\<lambda>p. pageMatches q (items_of p)) rest =
             ms @ filter (\<lambda>p. pageMatches q (items_of p)) (k # rest)"
    by (simp add: ms1_def)
  have f: "foldl pdf_step s (deliver rid items_of (k # rest)) =
             foldl pdf_step s1 (deliver rid items_of rest)"
    by (simp add: deliver_def s1_def)
  show ?case
    unfolding upt f using IH c m by simp
qed

lemma reject_step:
  assumes "commits_inv s" and "rid < length (runs s)"
    and "run_status (runs s ! rid) = Pending"
  shows "searchMatches (resumeRun rid Rejects s) = searchMatches s"
    "searchIndex (resumeRun rid Rejects s) = searchIndex s"
    "commits (resumeRun rid Rejects s) = commits s"
    "scrolls (resumeRun rid Rejects s) = scrolls s"
    "rejected_at rid (run_pageNum (runs s ! rid)) (run_matches (runs s ! rid))
       (resumeRun rid Rejects s)"
proof -
  have r: "resumeRun rid Rejects s =
      s\<lparr>runs := (runs s)[rid := (runs s ! rid)\<lparr>run_status := Rejected\<rparr>]\<rparr>"
    using assms(2,3) by (simp add: resumeRun_def)
  have n: "rid \<notin> set (commits s)"
    using assms(1,3) by (auto simp: commits_inv_def)
  show "searchMatches (resumeRun rid Rejects s) = searchMatches s"
    "searchIndex (resumeRun rid Rejects s) = searchIndex s"
    "commits (resumeRun rid Rejects s) = commits s"
    "scrolls (resumeRun rid Rejects s) = scrolls s"
    by (simp_all add: r)
  show "rejected_at rid (run_pageNum (runs s ! rid)) (run_matches (runs s ! rid))
       (resumeRun rid Rejects s)"
    using assms(2) n by (simp add: r rejected_at_def)
qed

lemma no_pages_clear:
  assumes "q \<noteq> searchQuery s"
    and "\<not> pdfDocRef s \<or> numPages s = None \<or> numPages s = Some 0"
  shows "searchMatches (setSearchQuery q s) = []"
    "searchIndex (setSearchQuery q s) = 0"
    "length (runs (setSearchQuery q s)) = length (runs s)"
    "commits (setSearchQuery q s) = commits s"
proof -
  let ?c = "runCleanup (s\<lparr>searchQuery := q\<rparr>)"
  have "\<not> pdfDocRef ?c \<or> numPages ?c = None \<or> numPages ?c = Some 0"
    using assms(2) by (simp add: runCleanup_frame)
  then have e: "searchEffect ?c = ?c\<lparr>searchMatches := [], searchIndex := 0\<rparr>"
    by (cases "numPages ?c") (auto simp: searchEffect_def Let_def)
  show "searchMatches (setSearchQuery q s) = []"
    "searchIndex (setSearchQuery q s) = 0"
    "length (runs (setSearchQuery q s)) = length (runs s)"
    "commits (setSearchQuery q s) = commits s"
    using assms(1) by (simp_all add: setSearchQuery_def e runCleanup_frame)
qed

text \<open>
  C8 (as the code has it). In every reachable state: when the extraction of a page is
  rejected for a pending run, that step changes neither match list, active index, scroll
  log nor publication log, and from then on the run stays rejected at that page with the
  matches it had, and never publishes; a pending run that is not cancelled and receives
  the text of all its remaining pages publishes its matches followed by the remaining
  pages whose text matches, and resets the active index; and a query change while no
  document is loaded or the page count is unknown or zero clears the match list and the
  index without starting a run.
\<close>

theorem extraction_failure_aborts_run:
  "let s = pdf_run es in
     (\<forall>rid es'. rid < length (runs s) \<and> run_status (runs s ! rid) = Pending \<longrightarrow>
        searchMatches (pdf_step s (Resume rid Rejects)) = searchMatches s
        \<and> searchIndex (pdf_step s (Resume rid Rejects)) = searchIndex s
        \<and> commits (pdf_step s (Resume rid Rejects)) = commits s
        \<and> scrolls (pdf_step s (Resume rid Rejects)) = scrolls s
        \<and> rid \<notin> set (commits (foldl pdf_step (pdf_step s (Resume rid Rejects)) es'))
        \<and> run_status (runs (foldl pdf_step (pdf_step s (Resume rid Rejects)) es') ! rid)
            = Rejected
        \<and> run_pageNum (runs (foldl pdf_step (pdf_step s (Resume rid Rejects)) es') ! rid)
            = run_pageNum (runs s ! rid)
        \<and> run_matches (runs (foldl pdf_step (pdf_step s (Resume rid Rejects)) es') ! rid)
            = run_matches (runs s ! rid))
   \<and> (\<forall>rid items_of. rid < length (runs s) \<and> run_status (runs s ! rid) = Pending
          \<and> \<not> run_cancelled (runs s ! rid) \<longrightarrow>
        searchMatches (foldl pdf_step s (deliver rid items_of
            [run_pageNum (runs s ! rid)..<Suc (run_numPages (runs s ! rid))])) =
          run_matches (runs s ! rid) @
            filter (\<lambda>p. pageMatches (run_query (runs s ! rid)) (items_of p))
              [run_pageNum (runs s ! rid)..<Suc (run_numPages (runs s ! rid))]
        \<and> searchIndex (foldl pdf_step s (deliver rid items_of
            [run_pageNum (runs s ! rid)..<Suc (run_numPages (runs s ! rid))])) = 0
        \<and> commits (foldl pdf_step s (deliver rid items_of
            [run_pageNum (runs s ! rid)..<Suc (run_numPages (runs s ! rid))])) =
          commits s @ [rid])
   \<and> (\<forall>q. q \<noteq> searchQuery s
          \<and> (\<not> pdfDocRef s \<or> numPages s = None \<or> numPages s = Some 0) \<longrightarrow>
        searchMatches (pdf_step s (SetSearchQuery q)) = []
        \<and> searchIndex (pdf_step s (SetSearchQuery q)) = 0
        \<and> length (runs (pdf_step s (SetSearchQuery q))) = length (runs s)
        \<and> commits (pdf_step s (SetSearchQuery q)) = commits s)"
proof -
  define s where "s = pdf_run es"
  have inv: "commits_inv s" "runs_inv s"
    using reachable_invariants [of es] by (simp_all add: s_def)
  have a: "\<forall>rid es'. rid < length (runs s) \<and> run_status (runs s ! rid) = Pending \<longrightarrow>
        searchMatches (pdf_step s (Resume rid Rejects)) = searchMatches s
        \<and> searchIndex (pdf_step s (Resume rid Rejects)) = searchIndex s
        \<and> commits (pdf_step s (Resume rid Rejects)) = commits s
        \<and> scrolls (pdf_step s (Resume rid Rejects)) = scrolls s
        \<and> rid \<notin> set (commits (foldl pdf_step (pdf_step s (Resume rid Rejects)) es'))
        \<and> run_status (runs (foldl pdf_step (pdf_step s (Resume rid Rejects)) es') ! rid)
            = Rejected
        \<and> run_pageNum (runs (foldl pdf_step (pdf_step s (Resume rid Rejects)) es') ! rid)
            = run_pageNum (runs s ! rid)
        \<and> run_matches (runs (foldl pdf_step (pdf_step s (Resume rid Rejects)) es') ! rid)
            = run_matches (runs s ! rid)"
  proof (intro allI impI)
    fix rid es'
    assume h: "rid < length (runs s) \<and> run_status (runs s ! rid) = Pending"
    then have h1: "rid < length (runs s)" and h2: "run_status (runs s ! rid) = Pending"
      by simp_all
    note r = reject_step [OF inv(1) h1 h2]
    from rejected_at_foldl [OF r(5), of es']
    have "rejected_at rid (run_pageNum (runs s ! rid)) (run_matches (runs s ! rid))
        (foldl pdf_step (pdf_step s (Resume rid Rejects)) es')"
      by simp
    with r(1-4)
    show "searchMatches (pdf_step s (Resume rid Rejects)) = searchMatches s
        \<and> searchIndex (pdf_step s (Resume rid Rejects)) = searchIndex s
        \<and> commits (pdf_step s (Resume rid Rejects)) = commits s
        \<and> scrolls (pdf_step s (Resume rid Rejects)) = scrolls s
        \<and> rid \<notin> set (commits (foldl pdf_step (pdf_step s (Resume rid Rejects)) es'))
        \<and> run_status (runs (foldl pdf_step (pdf_step s (Resume rid Rejects)) es') ! rid)
            = Rejected
        \<and> run_pageNum (runs (foldl pdf_step (pdf_step s (Resume rid Rejects)) es') ! rid)
            = run_pageNum (runs s ! rid)
        \<and> run_matches (runs (foldl pdf_step (pdf_step s (Resume rid Rejects)) es') ! rid)
            = run_matches (runs s ! rid)"
      by (simp add: rejected_at_def)
  qed
  have b: "\<forall>rid items_of. rid < length (runs s) \<and> run_status (runs s ! rid) = Pending
          \<and> \<not> run_cancelled (runs s ! rid) \<longrightarrow>
        searchMatches (foldl pdf_step s (deliver rid items_of
            [run_pageNum (runs s ! rid)..<Suc (run_numPages (runs s ! rid))])) =
          run_matches (runs s ! rid) @
            filter (\<lambda>p. pageMatches (run_query (runs s ! rid)) (items_of p))
              [run_pageNum (runs s ! rid)..<Suc (run_numPages (runs s ! rid))]
        \<and> searchIndex (foldl pdf_step s (deliver rid items_of
            [run_pageNum (runs s ! rid)..<Suc (run_numPages (runs s ! rid))])) = 0
        \<and> commits (foldl pdf_step s (deliver rid items_of
            [run_pageNum (runs s ! rid)..<Suc (run_numPages (runs s ! rid))])) =
          commits s @ [rid]"
  proof (intro allI impI)
    fix rid items_of
    assume h: "rid < length (runs s) \<and> run_status (runs s ! rid) = Pending
          \<and> \<not> run_cancelled (runs s ! rid)"
    then have h1: "rid < length (runs s)" and h2: "run_status (runs s ! rid) = Pending"
      and h3: "\<not> run_cancelled (runs s ! rid)"
      by simp_all
    have "run_ok (runs s ! rid)" using inv(2) h1 by (simp add: runs_inv_def)
    then have le: "run_pageNum (runs s ! rid) \<le> run_numPages (runs s ! rid)"
      using h2 by (simp add: run_ok_def)
    show "searchMatches (foldl pdf_step s (deliver rid items_of
            [run_pageNum (runs s ! rid)..<Suc (run_numPages (runs s ! rid))])) =
          run_matches (runs s ! rid) @
            filter (\<lambda>p. pageMatches (run_query (runs s ! rid)) (items_of p))
              [run_pageNum (runs s ! rid)..<Suc (run_numPages (runs s ! rid))]
        \<and> searchIndex (foldl pdf_step s (deliver rid items_of
            [run_pageNum (runs s ! rid)..<Suc (run_numPages (runs s ! rid))])) = 0
        \<and> commits (foldl pdf_step s (deliver rid items_of
            [run_pageNum (runs s ! rid)..<Suc (run_numPages (runs s ! rid))])) =
          commits s @ [rid]"
      by (rule scan_to_end [OF h1 h2 h3 refl refl refl refl refl le])
  qed
  have c: "\<forall>q. q \<noteq> searchQuery s
          \<and> (\<not> pdfDocRef s \<or> numPages s = None \<or> numPages s = Some 0) \<longrightarrow>
        searchMatches (pdf_step s (SetSearchQuery q)) = []
        \<and> searchIndex (pdf_step s (SetSearchQuery q)) = 0
        \<and> length (runs (pdf_step s (SetSearchQuery q))) = length (runs s)
        \<and> commits (pdf_step s (SetSearchQuery q)) = commits s"
    using no_pages_clear [of _ s] by simp
  show ?thesis
    unfolding Let_def
    using a [unfolded s_def] b [unfolded s_def] c [unfolded s_def]
    by blast
qed

lemma reject_trace_state:
  "length (runs (pdf_run (take 2 reject_trace))) = 1"
  "run_status (runs (pdf_run (take 2 reject_trace)) ! 0) = Pending"
  "run_pageNum (runs (pdf_run (take 2 reject_trace)) ! 0) = 1"
  "foldl pdf_step (pdf_step (pdf_run (take 2 reject_trace)) (Resume 0 Rejects))
     (drop 3 reject_trace) = pdf_run reject_trace"
  by (code_simp)+

theorem extraction_failure_aborts_run_witness:
  "0 < length (runs (pdf_run (take 2 reject_trace)))
   \<and> run_status (runs (pdf_run (take 2 reject_trace)) ! 0) = Pending
   \<and> 0 \<notin> set (commits (pdf_run reject_trace))
   \<and> run_status (runs (pdf_run reject_trace) ! 0) = Rejected
   \<and> run_pageNum (runs (pdf_run reject_trace) ! 0) = 1"
proof -
  have h: "0 < length (runs (pdf_run (take 2 reject_trace)))
      \<and> run_status (runs (pdf_run (take 2 reject_trace)) ! 0) = Pending"
    by (simp add: reject_trace_state)
  from extraction_failure_aborts_run [of "take 2 reject_trace"]
  have "\<forall>rid es'. rid < length (runs (pdf_run (take 2 reject_trace)))
        \<and> run_status (runs (pdf_run (take 2 reject_trace)) ! rid) = Pending \<longrightarrow>
        rid \<notin> set (commits (foldl pdf_step
            (pdf_step (pdf_run (take 2 reject_trace)) (Resume rid Rejects)) es'))
        \<and> run_status (runs (foldl pdf_step
            (pdf_step (pdf_run (take 2 reject_trace)) (Resume rid Rejects)) es') ! rid)
            = Rejected
        \<and> run_pageNum (runs (foldl pdf_step
            (pdf_step (pdf_run (take 2 reject_trace)) (Resume rid Rejects)) es') ! rid)
            = run_pageNum (runs (pdf_run (take 2 reject_trace)) ! rid)"
    unfolding Let_def by blast
  from this [rule_format, of 0 "drop 3 reject_trace"] h
  show ?thesis by (simp del: pdf_step.simps add: reject_trace_state)
qed

text \<open>
  The specification's wording of C8 treats a rejected extraction as a page without a match. In the
  first trace page 1 is rejected and page 2 contains the query: nothing is published and
  the run stops at page 1. In the second trace page 1 merely has no text, and page 2 is
  published.
\<close>

theorem page_failure_aborts_search_counterexample:
  "commits (pdf_run reject_trace) = []
   \<and> searchMatches (pdf_run reject_trace) = []
   \<and> run_status (runs (pdf_run reject_trace) ! 0) = Rejected
   \<and> run_pageNum (runs (pdf_run reject_trace) ! 0) = 1
   \<and> commits (pdf_run blank_page_trace) = [0]
   \<and> searchMatches (pdf_run blank_page_trace) = [2]"
  by code_simp

section \<open>Highlighting: theorems\<close>

lemma replaceAll_simps:
  "replaceAll c r [] = []"
  "replaceAll c r (x # xs) = (if x = c then r else [x]) @ replaceAll c r xs"
  "replaceAll c r (xs @ ys) = replaceAll c r xs @ replaceAll c r ys"
  by (simp_all add: replaceAll_def)

lemma escapeHtml_Nil: "escapeHtml [] = []"
  by (simp add: escapeHtml_def replaceAll_simps)

lemma escapeHtml_Cons: "escapeHtml (c # cs) = escapeChar c @ escapeHtml cs"
  by (simp add: escapeHtml_def escapeChar_def replaceAll_simps dquote_def apostrophe_def)

lemma escapeHtml_append: "escapeHtml (xs @ ys) = escapeHtml xs @ escapeHtml ys"
  by (induction xs) (simp_all add: escapeHtml_Nil escapeHtml_Cons)

lemma escapeChar_no_markup:
  "CHR ''<'' \<notin> set (escapeChar c) \<and> CHR ''>'' \<notin> set (escapeChar c)
   \<and> dquote \<notin> set (escapeChar c) \<and> apostrophe \<notin> set (escapeChar c)"
  by (simp add: escapeChar_def dquote_def apostrophe_def)

lemma escapeHtml_no_markup:
  "CHR ''<'' \<notin> set (escapeHtml s) \<and> CHR ''>'' \<notin> set (escapeHtml s)
   \<and> dquote \<notin> set (escapeHtml s) \<and> apostrophe \<notin> set (escapeHtml s)"
  by (induction s) (simp_all add: escapeHtml_Nil escapeHtml_Cons escapeChar_no_markup)

lemma decode_escapeChar:
  "decodeEntities (escapeChar c @ rest) = c # decodeEntities rest"
  by (simp add: escapeChar_def dquote_def apostrophe_def)

lemma decode_escapeHtml: "decodeEntities (escapeHtml s) = s"
  by (induction s) (simp_all add: escapeHtml_Nil escapeHtml_Cons decode_escapeChar)

lemma stripTags_text:
  "CHR ''<'' \<notin> set xs \<Longrightarrow> stripTags False (xs @ rest) = xs @ stripTags False rest"
  by (induction xs) auto

lemma stripTags_inside:
  "CHR ''>'' \<notin> set xs \<Longrightarrow> stripTags True (xs @ rest) = stripTags True rest"
  by (induction xs) auto

lemma reads_as_escapeHtml: "reads_as (escapeHtml s) (escapeHtml s)"
  by (simp add: reads_as_def stripTags_text escapeHtml_no_markup)

lemma reads_as_Nil: "reads_as [] []"
  by (simp add: reads_as_def)

lemma reads_as_append:
  "reads_as a x \<Longrightarrow> reads_as b y \<Longrightarrow> reads_as (a @ b) (x @ y)"
  by (simp add: reads_as_def)

lemma reads_as_hitOpen:
  assumes "CHR ''>'' \<notin> set className" and "CHR ''>'' \<notin> set style"
  shows "reads_as (hitOpen className style) []"
  unfolding reads_as_def hitOpen_def
  using assms by (simp add: stripTags_inside dquote_def)

lemma reads_as_pageOpen:
  assumes "CHR ''>'' \<notin> set style"
  shows "reads_as (pageOpen style) []"
  unfolding reads_as_def pageOpen_def
  using assms by (simp add: stripTags_inside dquote_def)

lemma reads_as_spanClose: "reads_as spanClose []"
  by (simp add: reads_as_def spanClose_def)

lemma first_index_bound:
  "first_index q t = Some i \<Longrightarrow> q \<noteq> [] \<Longrightarrow> i < length t"
  by (induction t arbitrary: i) (auto split: if_splits)

lemma indexOf_bounds:
  assumes "indexOf s q pos = Some found" and "q \<noteq> []"
  shows "pos \<le> found \<and> found < length s"
proof -
  let ?p = "min pos (length s)"
  from assms(1) obtain i where i: "first_index q (drop ?p s) = Some i" "found = i + ?p"
    by (auto simp: indexOf_def Let_def)
  from first_index_bound [OF i(1) assms(2)] have b: "i < length s - ?p" by simp
  then have "pos \<le> length s" by (cases "pos \<le> length s") simp_all
  with b i(2) show ?thesis by simp
qed

lemma take_slice: "a \<le> b \<Longrightarrow> take a s @ slice s a b = take b s"
  by (metis le_add_diff_inverse slice_def take_add)

lemma highlightLoop_reads:
  assumes "queryLower \<noteq> []" and "0 < qlen" and "reads_as tag []"
    and "reads_as result (escapeHtml (take idx str))"
  shows "\<exists>out. highlightLoop str lower queryLower qlen tag idx result = Some out
           \<and> reads_as out (escapeHtml str)"
  using assms(4)
proof (induction "length lower - idx" arbitrary: idx result rule: less_induct)
  case less
  show ?case
  proof (cases "indexOf lower queryLower idx")
    case None
    have "reads_as (result @ escapeHtml (sliceFrom str idx))
            (escapeHtml (take idx str) @ escapeHtml (drop idx str))"
      using less.prems reads_as_escapeHtml [of "drop idx str"]
      by (intro reads_as_append) (simp_all add: sliceFrom_def)
    then have "reads_as (result @ escapeHtml (sliceFrom str idx)) (escapeHtml str)"
      by (simp add: escapeHtml_append [symmetric])
    with None show ?thesis
      by (subst highlightLoop.simps) simp
  next
    case (Some found)
    from indexOf_bounds [OF Some assms(1)]
    have b: "idx \<le> found" "found < length lower" by simp_all
    let ?result = "result @ escapeHtml (slice str idx found) @ tag
        @ escapeHtml (slice str found (found + qlen)) @ spanClose"
    have t: "take idx str @ slice str idx found @ slice str found (found + qlen) =
        take (found + qlen) str"
      using b(1) take_slice [of idx found str] take_slice [of found "found + qlen" str]
      by (metis append_assoc le_add1)
    have "reads_as ?result
        (escapeHtml (take idx str) @ escapeHtml (slice str idx found) @ []
           @ escapeHtml (slice str found (found + qlen)) @ [])"
      using less.prems assms(3) reads_as_spanClose
      by (intro reads_as_append reads_as_escapeHtml)
    then have r: "reads_as ?result (escapeHtml (take (found + qlen) str))"
      by (simp add: escapeHtml_append [symmetric] t)
    have m: "length lower - (found + qlen) < length lower - idx"
      using b assms(2) by simp
    from less.hyps [OF m r] Some show ?thesis
      by (subst highlightLoop.simps) simp
  qed
qed

lemma toLowerCase_Nil: "toLowerCase q = [] \<longleftrightarrow> q = []"
  by (simp add: toLowerCase_def)

lemma set_trim: "set (trim s) \<subseteq> set s"
  unfolding trim_def by (metis set_dropWhileD set_rev subsetI)

lemma hit_attrs_closed:
  assumes "attrs_closed props"
  shows "CHR ''>'' \<notin> set (hitClassName props a)" and "CHR ''>'' \<notin> set (hitStyle props a)"
proof -
  let ?both = "hl_searchHighlightClassName props @ '' ''
      @ hl_searchActiveHighlightClassName props"
  have "CHR ''>'' \<notin> set ?both"
    using assms by (simp add: attrs_closed_def)
  then have "CHR ''>'' \<notin> set (trim ?both)"
    using set_trim [of ?both] by blast
  then show "CHR ''>'' \<notin> set (hitClassName props a)"
    using assms by (simp add: hitClassName_def attrs_closed_def)
  show "CHR ''>'' \<notin> set (hitStyle props a)"
    using assms by (auto simp: hitStyle_def attrs_closed_def)
qed

lemma textRenderer_total:
  assumes "attrs_closed props"
  shows "\<exists>out. textRenderer props str pageNumber = Some out \<and> reads_as out (escapeHtml str)"
proof (cases "str = []")
  case True
  then show ?thesis
    by (simp add: textRenderer_def Let_def reads_as_Nil escapeHtml_Nil)
next
  case False
  let ?query = "trim (hl_searchQuery props)"
  let ?active = "case pageNumber of None \<Rightarrow> False
      | Some pn \<Rightarrow> hl_activeMatchPage props = Some pn"
  let ?tag = "hitOpen (hitClassName props ?active) (hitStyle props ?active)"
  let ?wrap = "hl_highlightPageTextMode props \<noteq> HlNone
      \<and> (case pageNumber of None \<Rightarrow> False
          | Some pn \<Rightarrow> int pn \<in> set (highlightPageSet props))"
  have tag: "reads_as ?tag []"
    using hit_attrs_closed [OF assms] by (intro reads_as_hitOpen)
  have "\<exists>result. reads_as result (escapeHtml str)
      \<and> textRenderer props str pageNumber =
          (if ?wrap
           then Some (pageOpen (hl_highlightPageTextStyleString props) @ result @ spanClose)
           else Some result)"
  proof (cases "?query = []")
    case True
    with False show ?thesis
      by (intro exI [of _ "escapeHtml str"])
         (simp add: textRenderer_def Let_def reads_as_escapeHtml)
  next
    case q: False
    have "reads_as [] (escapeHtml (take 0 str))"
      by (simp add: reads_as_Nil escapeHtml_Nil)
    from highlightLoop_reads [OF _ _ tag this, of "toLowerCase ?query" "length ?query"
        "toLowerCase str"] q
    obtain out where o:
      "highlightLoop str (toLowerCase str) (toLowerCase ?query) (length ?query) ?tag 0 []
         = Some out"
      "reads_as out (escapeHtml str)"
      by (auto simp: toLowerCase_Nil)
    from False q o show ?thesis
      by (intro exI [of _ out]) (simp add: textRenderer_def Let_def)
  qed
  then obtain result where r: "reads_as result (escapeHtml str)"
    "textRenderer props str pageNumber =
          (if ?wrap
           then Some (pageOpen (hl_highlightPageTextStyleString props) @ result @ spanClose)
           else Some result)"
    by blast
  have "reads_as (pageOpen (hl_highlightPageTextStyleString props) @ result @ spanClose)
          ([] @ escapeHtml str @ [])"
    using assms r(1)
    by (intro reads_as_append reads_as_pageOpen reads_as_spanClose)
       (simp_all add: attrs_closed_def)
  then have w: "reads_as (pageOpen (hl_highlightPageTextStyleString props) @ result @ spanClose)
          (escapeHtml str)"
    by simp
  show ?thesis
  proof (cases ?wrap)
    case True
    with r(2) w show ?thesis by simp
  next
    case False
    with r show ?thesis by simp
  qed
qed

lemma textRenderer_plain:
  assumes "trim (hl_searchQuery props) = []
           \<or> indexOf (toLowerCase str) (toLowerCase (trim (hl_searchQuery props))) 0 = None"
    and "hl_highlightPageTextMode props = HlNone
         \<or> (case pageNumber of None \<Rightarrow> True
             | Some pn \<Rightarrow> int pn \<notin> set (highlightPageSet props))"
  shows "textRenderer props str pageNumber = Some (escapeHtml str)"
proof (cases "str = []")
  case True
  then show ?thesis by (simp add: textRenderer_def Let_def escapeHtml_Nil)
next
  case False
  have loop: "indexOf (toLowerCase str) ql 0 = None \<Longrightarrow>
      highlightLoop str (toLowerCase str) ql n tag 0 [] = Some (escapeHtml str)" for ql n tag
    by (subst highlightLoop.simps) (simp add: sliceFrom_def)
  show ?thesis
    using False assms loop
    by (cases pageNumber) (auto simp: textRenderer_def Let_def)
qed

lemma reads_as_stripTags: "reads_as out txt \<Longrightarrow> stripTags False out = txt"
  unfolding reads_as_def by (metis append_Nil2 stripTags.simps(1))

lemma highlightLoop_returns:
  assumes "queryLower \<noteq> []" and "0 < qlen"
  shows "\<exists>out. highlightLoop str lower queryLower qlen tag idx result = Some out"
proof (induction "length lower - idx" arbitrary: idx result rule: less_induct)
  case less
  show ?case
  proof (cases "indexOf lower queryLower idx")
    case None
    then show ?thesis by (subst highlightLoop.simps) simp
  next
    case (Some found)
    from indexOf_bounds [OF Some assms(1)]
    have b: "idx \<le> found" "found < length lower" by simp_all
    have "length lower - (found + qlen) < length lower - idx"
      using b assms(2) by simp
    from less.hyps [OF this] Some show ?thesis
      by (subst highlightLoop.simps) simp
  qed
qed

lemma textRenderer_returns: "\<exists>out. textRenderer props str pageNumber = Some out"
proof (cases "str = [] \<or> trim (hl_searchQuery props) = []")
  case True
  then show ?thesis by (auto simp: textRenderer_def Let_def)
next
  case False
  let ?query = "trim (hl_searchQuery props)"
  let ?active = "case pageNumber of None \<Rightarrow> False
      | Some pn \<Rightarrow> hl_activeMatchPage props = Some pn"
  from False have "toLowerCase ?query \<noteq> []" "0 < length ?query"
    by (simp_all add: toLowerCase_Nil)
  from highlightLoop_returns [OF this, of str "toLowerCase str"
      "hitOpen (hitClassName props ?active) (hitStyle props ?active)" 0 "[]"]
  obtain result where
    "highlightLoop str (toLowerCase str) (toLowerCase ?query) (length ?query)
       (hitOpen (hitClassName props ?active) (hitStyle props ?active)) 0 [] = Some result"
    by blast
  with False show ?thesis by (simp add: textRenderer_def Let_def)
qed

text \<open>
  C10. For every configuration, every text item and every page number the renderer
  returns. When the configured class names and styles contain no \<open>>\<close>, its markup read
  back without the tags is exactly \<^verbatim>\<open>escapeHtml\<close> of the item, so that its character
  data is the item itself. \<^verbatim>\<open>escapeHtml\<close> of any string contains none of \<open><\<close>, \<open>>\<close>, the
  double quote and the apostrophe, and decodes back to the string. When the trimmed
  query is empty or does not occur in the item, and the page highlight does not apply to
  the item, the result is \<^verbatim>\<open>escapeHtml\<close> of the item. The renderer is absent exactly
  when the trimmed query is empty and page highlighting is off.
\<close>

theorem highlight_escapes_fragment:
  "(\<exists>out. textRenderer props str pageNumber = Some out
      \<and> (attrs_closed props \<longrightarrow>
            stripTags False out = escapeHtml str \<and> textContent out = str))
   \<and> CHR ''<'' \<notin> set (escapeHtml str) \<and> CHR ''>'' \<notin> set (escapeHtml str)
   \<and> dquote \<notin> set (escapeHtml str) \<and> apostrophe \<notin> set (escapeHtml str)
   \<and> decodeEntities (escapeHtml str) = str
   \<and> ((trim (hl_searchQuery props) = []
         \<or> indexOf (toLowerCase str) (toLowerCase (trim (hl_searchQuery props))) 0 = None)
       \<and> (hl_highlightPageTextMode props = HlNone
           \<or> (case pageNumber of None \<Rightarrow> True
               | Some pn \<Rightarrow> int pn \<notin> set (highlightPageSet props)))
       \<longrightarrow> textRenderer props str pageNumber = Some (escapeHtml str))
   \<and> (customTextRenderer props = None \<longleftrightarrow>
         trim (hl_searchQuery props) = [] \<and> hl_highlightPageTextMode props = HlNone)
   \<and> (customTextRenderer props \<noteq> None \<longrightarrow>
         customTextRenderer props = Some (textRenderer props))"
proof -
  from textRenderer_returns [of props str pageNumber]
  obtain out where o: "textRenderer props str pageNumber = Some out"
    by blast
  have "attrs_closed props \<longrightarrow> stripTags False out = escapeHtml str \<and> textContent out = str"
  proof
    assume "attrs_closed props"
    from textRenderer_total [OF this, of str pageNumber] o
    have "reads_as out (escapeHtml str)" by simp
    then have s: "stripTags False out = escapeHtml str"
      by (rule reads_as_stripTags)
    then have "textContent out = str"
      by (simp add: textContent_def decode_escapeHtml)
    with s show "stripTags False out = escapeHtml str \<and> textContent out = str" ..
  qed
  with o have a: "\<exists>out. textRenderer props str pageNumber = Some out
      \<and> (attrs_closed props \<longrightarrow>
            stripTags False out = escapeHtml str \<and> textContent out = str)"
    by blast
  have c: "customTextRenderer props = None \<longleftrightarrow>
             trim (hl_searchQuery props) = [] \<and> hl_highlightPageTextMode props = HlNone"
    "customTextRenderer props \<noteq> None \<longrightarrow>
             customTextRenderer props = Some (textRenderer props)"
    by (simp_all add: customTextRenderer_def)
  show ?thesis
    using a escapeHtml_no_markup [of str] decode_escapeHtml [of str]
      textRenderer_plain [of props str pageNumber] c
    by blast
qed

lemma sample_props_closed: "attrs_closed sample_props"
  by (simp add: attrs_closed_def sample_props_def)

theorem highlight_escapes_fragment_witness:
  "attrs_closed sample_props
   \<and> trim (hl_searchQuery sample_props) \<noteq> []
   \<and> (\<exists>out. textRenderer sample_props ''<i>tea & TEAtime</i>'' (Some 2) = Some out
         \<and> stripTags False out = escapeHtml ''<i>tea & TEAtime</i>''
         \<and> textContent out = ''<i>tea & TEAtime</i>'')"
proof -
  have q: "trim (hl_searchQuery sample_props) \<noteq> []" by code_simp
  from highlight_escapes_fragment [of sample_props "''<i>tea & TEAtime</i>''" "Some 2"]
    sample_props_closed q
  show ?thesis by blast
qed

section \<open>Conversion: theorems\<close>

lemma first_index_infix: "first_index q (a @ q @ b) \<noteq> None"
proof (induction a)
  case Nil
  show ?case
  proof (cases "q @ b")
    case Nil
    then show ?thesis by simp
  next
    case (Cons c t)
    have "prefix q (q @ b)" by simp
    with Cons show ?thesis by simp
  qed
next
  case (Cons x a)
  then show ?case by simp
qed

lemma includesStr_infix: "includesStr (a @ q @ b) q"
  using first_index_infix [of q a b] by (simp add: includesStr_def indexOf_def)

lemma conversionCleanup_frame:
  "errorCalls (conversionCleanup s) = errorCalls s"
  "conversionError (conversionCleanup s) = conversionError s"
  "convertedPdfUrl (conversionCleanup s) = convertedPdfUrl s"
  "length (conv_runs (conversionCleanup s)) = length (conv_runs s)"
  by (simp_all add: conversionCleanup_def split: option.splits)

lemma conversionCleanup_nth:
  "rid < length (conv_runs s) \<Longrightarrow>
     conv_settled (conv_runs (conversionCleanup s) ! rid) = conv_settled (conv_runs s ! rid)"
  by (auto simp: conversionCleanup_def nth_update_if split: option.splits)

lemma releaseConverted_frame:
  "errorCalls (releaseConverted s) = errorCalls s"
  "conv_runs (releaseConverted s) = conv_runs s"
  "conversionError (releaseConverted s) = conversionError s"
  by (simp_all add: releaseConverted_def split: option.splits)

lemma resetConversion_frame:
  "errorCalls (resetConversion s) = errorCalls s"
  "conv_runs (resetConversion s) = conv_runs s"
  by (simp_all add: resetConversion_def releaseConverted_frame)

lemma conversionEffect_frame:
  "errorCalls (conversionEffect c s) = errorCalls s"
  "length (conv_runs s) \<le> length (conv_runs (conversionEffect c s))"
  "rid < length (conv_runs s) \<Longrightarrow>
     conv_runs (conversionEffect c s) ! rid = conv_runs s ! rid"
  by (simp_all add: conversionEffect_def nth_append)

text \<open>What the settling of a run does, by case.\<close>

lemma conversionSettles_error:
  assumes "rid < length (conv_runs s)" and "\<not> conv_settled (conv_runs s ! rid)"
  shows "errorCalls (conversionSettles cb rid (Inl message) s) =
           errorCalls s @ (if cb \<and> \<not> conv_cancelled (conv_runs s ! rid) then [(rid, message)] else [])"
    and "conversionError (conversionSettles cb rid (Inl message) s) =
           (if conv_cancelled (conv_runs s ! rid) then conversionError s else Some message)"
    and "convertedPdfUrl (conversionSettles cb rid (Inl message) s) = convertedPdfUrl s"
    and "length (conv_runs (conversionSettles cb rid (Inl message) s)) = length (conv_runs s)"
    and "conv_settled (conv_runs (conversionSettles cb rid (Inl message) s) ! rid)"
  using assms by (simp_all add: conversionSettles_def Let_def)

lemma conversionSettles_runs:
  "length (conv_runs (conversionSettles cb rid result s)) = length (conv_runs s)"
  "i < length (conv_runs s) \<Longrightarrow> conv_settled (conv_runs s ! i) \<Longrightarrow>
     conv_settled (conv_runs (conversionSettles cb rid result s) ! i)"
  "set (errorCalls (conversionSettles cb rid result s)) \<subseteq>
     set (errorCalls s) \<union> (if rid < length (conv_runs s) \<and> \<not> conv_settled (conv_runs s ! rid)
        then {c. fst c = rid} else {})"
  "rid < length (conv_runs s) \<Longrightarrow> \<not> conv_settled (conv_runs s ! rid) \<Longrightarrow>
     conv_settled (conv_runs (conversionSettles cb rid result s) ! rid)"
  "i < length (conv_runs s) \<Longrightarrow> conv_settled (conv_runs s ! i) \<Longrightarrow>
     filter (\<lambda>c. fst c = i) (errorCalls (conversionSettles cb rid result s)) =
     filter (\<lambda>c. fst c = i) (errorCalls s)"
  by (auto simp: conversionSettles_def Let_def nth_update_if split: sum.splits option.splits)

lemma viewer_step_settled:
  assumes "i < length (conv_runs s)" and "conv_settled (conv_runs s ! i)"
  shows "i < length (conv_runs (viewer_step cb s e))
       \<and> conv_settled (conv_runs (viewer_step cb s e) ! i)
       \<and> filter (\<lambda>c. fst c = i) (errorCalls (viewer_step cb s e)) =
           filter (\<lambda>c. fst c = i) (errorCalls s)"
proof (cases e)
  case (SourceChanged c)
  let ?u = "resetConversion (conversionCleanup s)"
  have "i < length (conv_runs ?u)" "conv_settled (conv_runs ?u ! i)"
    using assms by (simp_all add: resetConversion_frame conversionCleanup_frame conversionCleanup_nth)
  with SourceChanged show ?thesis
    using conversionEffect_frame(2) [of ?u c]
    by (simp add: conversionEffect_frame resetConversion_frame conversionCleanup_frame)
next
  case (DependencyChanged c)
  let ?u = "conversionCleanup s"
  have "i < length (conv_runs ?u)" "conv_settled (conv_runs ?u ! i)"
    using assms by (simp_all add: conversionCleanup_frame conversionCleanup_nth)
  with DependencyChanged show ?thesis
    using conversionEffect_frame(2) [of ?u c]
    by (simp add: conversionEffect_frame conversionCleanup_frame)
next
  case Unmounted
  with assms show ?thesis
    by (simp add: releaseConverted_frame conversionCleanup_frame conversionCleanup_nth)
next
  case (WorkerSettles rid u outcome)
  with assms show ?thesis by (simp add: conversionSettles_runs)
qed

lemma viewer_foldl_settled:
  assumes "i < length (conv_runs s)" and "conv_settled (conv_runs s ! i)"
  shows "filter (\<lambda>c. fst c = i) (errorCalls (foldl (viewer_step cb) s es)) =
           filter (\<lambda>c. fst c = i) (errorCalls s)"
  using assms
proof (induction es arbitrary: s)
  case Nil
  show ?case by simp
next
  case (Cons e es)
  from viewer_step_settled [OF Cons.prems, of cb e] Cons.IH [of "viewer_step cb s e"]
  show ?case by simp
qed

lemma calls_settled_step:
  assumes "calls_settled s"
  shows "calls_settled (viewer_step cb s e)"
  unfolding calls_settled_def
proof
  fix c
  assume c: "c \<in> set (errorCalls (viewer_step cb s e))"
  show "fst c < length (conv_runs (viewer_step cb s e))
      \<and> conv_settled (conv_runs (viewer_step cb s e) ! fst c)"
  proof (cases "c \<in> set (errorCalls s)")
    case True
    then have "fst c < length (conv_runs s)" "conv_settled (conv_runs s ! fst c)"
      using assms by (auto simp: calls_settled_def)
    from viewer_step_settled [OF this, of cb e] show ?thesis by simp
  next
    case False
    with c obtain rid u outcome where e: "e = WorkerSettles rid u outcome"
      by (cases e)
         (simp_all add: conversionEffect_frame resetConversion_frame conversionCleanup_frame
            releaseConverted_frame)
    from c False e conversionSettles_runs(3) [of cb rid "convertViaWorker u outcome" s]
    have r: "rid < length (conv_runs s)" "\<not> conv_settled (conv_runs s ! rid)" "fst c = rid"
      by (auto split: if_splits)
    with e show ?thesis by (simp add: conversionSettles_runs)
  qed
qed

lemma viewer_run_snoc: "viewer_run cb (es @ [e]) = viewer_step cb (viewer_run cb es) e"
  by (simp add: viewer_run_def)

lemma calls_settled_reachable: "calls_settled (viewer_run cb es)"
proof (induction es rule: rev_induct)
  case Nil
  show ?case by (simp add: viewer_run_def viewer_init_def calls_settled_def)
next
  case (snoc e es)
  then show ?case by (simp add: viewer_run_snoc calls_settled_step)
qed

lemma failure_message:
  assumes "failure_response res"
  shows "convertViaWorker objectUrl (Responds res) =
     Inl (if \<not> res_ok res
          then ''Conversion failed: '' @ show_nat (res_status res) @ '' ''
                 @ (if res_text res \<noteq> [] then res_text res else res_statusText res)
                 @ ''. Check conversion worker URL and CORS.''
          else if includesStr (contentTypeOf res) ''application/pdf''
          then ''Conversion failed: worker returned empty PDF.''
          else ''Unexpected response type: '' @ contentTypeOf res)"
  using assms by (auto simp: convertViaWorker_def failure_response_def Let_def)

lemma status_message_includes:
  "includesStr (''Conversion failed: '' @ st @ '' '' @ body
      @ ''. Check conversion worker URL and CORS.'') st"
  "includesStr (''Conversion failed: '' @ st @ '' '' @ body
      @ ''. Check conversion worker URL and CORS.'') body"
proof -
  show "includesStr (''Conversion failed: '' @ st @ '' '' @ body
      @ ''. Check conversion worker URL and CORS.'') st"
    by (rule includesStr_infix)
  have "includesStr ((''Conversion failed: '' @ st @ '' '') @ body
      @ ''. Check conversion worker URL and CORS.'') body"
    by (rule includesStr_infix)
  then show "includesStr (''Conversion failed: '' @ st @ '' '' @ body
      @ ''. Check conversion worker URL and CORS.'') body"
    by simp
qed

text \<open>
  C2 (as the code has it). For every worker response with a non-success status, an
  unexpected content type or an empty PDF body, \<^verbatim>\<open>convertViaWorker\<close> fails with an
  error. For a non-success status its message contains the decimal status and the
  response text, or the status text when the body is empty; for an empty PDF body and
  for an unexpected content type it is the fixed message, the latter followed by the
  content type. When the failure reaches a run of the conversion effect that has not
  been cancelled, the message becomes the conversion error and \<^verbatim>\<open>onConversionError\<close>,
  when given, is called exactly once for that run, whatever happens afterwards; when
  the run has been cancelled, the conversion error is left as it was and the callback
  is never called for that run. The converted URL is not set in either case.
\<close>

theorem worker_failure_reported:
  assumes "failure_response res"
  shows "\<exists>message.
      convertViaWorker objectUrl (Responds res) = Inl message
    \<and> (\<not> res_ok res \<longrightarrow>
          includesStr message (show_nat (res_status res))
        \<and> includesStr message (if res_text res \<noteq> [] then res_text res else res_statusText res))
    \<and> (res_ok res \<longrightarrow>
          message = (if includesStr (contentTypeOf res) ''application/pdf''
                     then ''Conversion failed: worker returned empty PDF.''
                     else ''Unexpected response type: '' @ contentTypeOf res))
    \<and> (\<forall>cb es rid es'.
          rid < length (conv_runs (viewer_run cb es))
          \<and> \<not> conv_settled (conv_runs (viewer_run cb es) ! rid) \<longrightarrow>
            filter (\<lambda>c. fst c = rid)
              (errorCalls (foldl (viewer_step cb)
                 (viewer_step cb (viewer_run cb es) (WorkerSettles rid objectUrl (Responds res)))
                 es')) =
              (if cb \<and> \<not> conv_cancelled (conv_runs (viewer_run cb es) ! rid)
               then [(rid, message)] else [])
          \<and> conversionError
               (viewer_step cb (viewer_run cb es) (WorkerSettles rid objectUrl (Responds res))) =
              (if conv_cancelled (conv_runs (viewer_run cb es) ! rid)
               then conversionError (viewer_run cb es) else Some message)
          \<and> convertedPdfUrl
               (viewer_step cb (viewer_run cb es) (WorkerSettles rid objectUrl (Responds res))) =
              convertedPdfUrl (viewer_run cb es))"
proof -
  define message where "message =
      (if \<not> res_ok res
       then ''Conversion failed: '' @ show_nat (res_status res) @ '' ''
              @ (if res_text res \<noteq> [] then res_text res else res_statusText res)
              @ ''. Check conversion worker URL and CORS.''
       else if includesStr (contentTypeOf res) ''application/pdf''
       then ''Conversion failed: worker returned empty PDF.''
       else ''Unexpected response type: '' @ contentTypeOf res)"
  have m: "convertViaWorker objectUrl (Responds res) = Inl message"
    unfolding message_def by (rule failure_message [OF assms])
  have a: "\<not> res_ok res \<longrightarrow>
          includesStr message (show_nat (res_status res))
        \<and> includesStr message (if res_text res \<noteq> [] then res_text res else res_statusText res)"
    using status_message_includes
      [of "show_nat (res_status res)"
          "if res_text res \<noteq> [] then res_text res else res_statusText res"]
    by (simp add: message_def)
  have b: "res_ok res \<longrightarrow>
          message = (if includesStr (contentTypeOf res) ''application/pdf''
                     then ''Conversion failed: worker returned empty PDF.''
                     else ''Unexpected response type: '' @ contentTypeOf res)"
    by (simp add: message_def)
  have c: "\<forall>cb es rid es'.
          rid < length (conv_runs (viewer_run cb es))
          \<and> \<not> conv_settled (conv_runs (viewer_run cb es) ! rid) \<longrightarrow>
            filter (\<lambda>c. fst c = rid)
              (errorCalls (foldl (viewer_step cb)
                 (viewer_step cb (viewer_run cb es) (WorkerSettles rid objectUrl (Responds res)))
                 es')) =
              (if cb \<and> \<not> conv_cancelled (conv_runs (viewer_run cb es) ! rid)
               then [(rid, message)] else [])
          \<and> conversionError
               (viewer_step cb (viewer_run cb es) (WorkerSettles rid objectUrl (Responds res))) =
              (if conv_cancelled (conv_runs (viewer_run cb es) ! rid)
               then conversionError (viewer_run cb es) else Some message)
          \<and> convertedPdfUrl
               (viewer_step cb (viewer_run cb es) (WorkerSettles rid objectUrl (Responds res))) =
              convertedPdfUrl (viewer_run cb es)"
  proof (intro allI impI)
    fix cb es rid es'
    define s where "s = viewer_run cb es"
    define s' where "s' = viewer_step cb s (WorkerSettles rid objectUrl (Responds res))"
    assume "rid < length (conv_runs (viewer_run cb es))
          \<and> \<not> conv_settled (conv_runs (viewer_run cb es) ! rid)"
    then have h: "rid < length (conv_runs s)" "\<not> conv_settled (conv_runs s ! rid)"
      by (simp_all add: s_def)
    have s': "s' = conversionSettles cb rid (Inl message) s"
      by (simp add: s'_def m)
    note e = conversionSettles_error [OF h, of cb message]
    have "calls_settled s" unfolding s_def by (rule calls_settled_reachable)
    with h(2) have none: "filter (\<lambda>c. fst c = rid) (errorCalls s) = []"
      by (auto simp: calls_settled_def filter_empty_conv)
    have "filter (\<lambda>c. fst c = rid) (errorCalls (foldl (viewer_step cb) s' es')) =
        filter (\<lambda>c. fst c = rid) (errorCalls s')"
      using e(4,5) h(1) by (intro viewer_foldl_settled) (simp_all add: s')
    also have "\<dots> = (if cb \<and> \<not> conv_cancelled (conv_runs s ! rid) then [(rid, message)] else [])"
      using e(1) none by (simp add: s')
    finally have "filter (\<lambda>c. fst c = rid) (errorCalls (foldl (viewer_step cb) s' es')) =
        (if cb \<and> \<not> conv_cancelled (conv_runs s ! rid) then [(rid, message)] else [])" .
    with e(2,3)
    show "filter (\<lambda>c. fst c = rid)
              (errorCalls (foldl (viewer_step cb)
                 (viewer_step cb (viewer_run cb es) (WorkerSettles rid objectUrl (Responds res)))
                 es')) =
              (if cb \<and> \<not> conv_cancelled (conv_runs (viewer_run cb es) ! rid)
               then [(rid, message)] else [])
          \<and> conversionError
               (viewer_step cb (viewer_run cb es) (WorkerSettles rid objectUrl (Responds res))) =
              (if conv_cancelled (conv_runs (viewer_run cb es) ! rid)
               then conversionError (viewer_run cb es) else Some message)
          \<and> convertedPdfUrl
               (viewer_step cb (viewer_run cb es) (WorkerSettles rid objectUrl (Responds res))) =
              convertedPdfUrl (viewer_run cb es)"
      unfolding s'_def [symmetric] s_def [symmetric] s' [symmetric]
      by (simp add: s' [symmetric])
  qed
  from m a b c show ?thesis by blast
qed

lemma bad_file_facts:
  "failure_response bad_file_response"
  "\<not> res_ok bad_file_response"
  "show_nat (res_status bad_file_response) = ''500''"
  "res_text bad_file_response = ''bad file''"
  "length (conv_runs (viewer_run True [SourceChanged True])) = 1"
  "\<not> conv_settled (conv_runs (viewer_run True [SourceChanged True]) ! 0)"
  "\<not> conv_cancelled (conv_runs (viewer_run True [SourceChanged True]) ! 0)"
  by (code_simp)+

theorem worker_failure_reported_witness:
  "failure_response bad_file_response
   \<and> (\<exists>message.
        convertViaWorker ''blob:1'' (Responds bad_file_response) = Inl message
      \<and> includesStr message ''500'' \<and> includesStr message ''bad file''
      \<and> filter (\<lambda>c. fst c = 0)
          (errorCalls (foldl (viewer_step True)
             (viewer_step True (viewer_run True [SourceChanged True])
                (WorkerSettles 0 ''blob:1'' (Responds bad_file_response)))
             [WorkerSettles 0 ''blob:1'' (Responds bad_file_response), Unmounted])) =
          [(0, message)])"
proof -
  from worker_failure_reported [OF bad_file_facts(1), of "''blob:1''"]
  obtain message where m:
    "convertViaWorker ''blob:1'' (Responds bad_file_response) = Inl message"
    "\<not> res_ok bad_file_response \<longrightarrow>
          includesStr message (show_nat (res_status bad_file_response))
        \<and> includesStr message (if res_text bad_file_response \<noteq> []
            then res_text bad_file_response else res_statusText bad_file_response)"
    "\<forall>cb es rid es'.
          rid < length (conv_runs (viewer_run cb es))
          \<and> \<not> conv_settled (conv_runs (viewer_run cb es) ! rid) \<longrightarrow>
            filter (\<lambda>c. fst c = rid)
              (errorCalls (foldl (viewer_step cb)
                 (viewer_step cb (viewer_run cb es)
                    (WorkerSettles rid ''blob:1'' (Responds bad_file_response)))
                 es')) =
              (if cb \<and> \<not> conv_cancelled (conv_runs (viewer_run cb es) ! rid)
               then [(rid, message)] else [])"
    by blast
  have i: "includesStr message ''500''" "includesStr message ''bad file''"
    using m(2) by (simp_all add: bad_file_facts)
  from m(3) [rule_format, of 0 True "[SourceChanged True]"
      "[WorkerSettles 0 ''blob:1'' (Responds bad_file_response), Unmounted]"]
  have "filter (\<lambda>c. fst c = 0)
          (errorCalls (foldl (viewer_step True)
             (viewer_step True (viewer_run True [SourceChanged True])
                (WorkerSettles 0 ''blob:1'' (Responds bad_file_response)))
             [WorkerSettles 0 ''blob:1'' (Responds bad_file_response), Unmounted])) =
          [(0, message)]"
    by (simp del: viewer_step.simps foldl.simps add: bad_file_facts)
  with m(1) i bad_file_facts(1) show ?thesis by blast
qed

text \<open>
  The specification's wording of C2 promises one call for every failing response. Here the first
  conversion is superseded by a change of source before the worker answers 500
  ``bad file'': the cancelled run makes no call and sets no error.
\<close>

theorem superseded_conversion_failure_counterexample:
  "failure_response bad_file_response
   \<and> conv_cancelled (conv_runs (viewer_run True (take 2 superseded_failure_trace)) ! 0)
   \<and> convertViaWorker ''blob:1'' (Responds bad_file_response) =
       Inl ''Conversion failed: 500 bad file. Check conversion worker URL and CORS.''
   \<and> errorCalls (viewer_run True superseded_failure_trace) = []
   \<and> conversionError (viewer_run True superseded_failure_trace) = None"
  by code_simp

section \<open>Format resolution and external links: theorems\<close>

lemma property_plain: "plain_key key \<Longrightarrow> property obj key = map_option Own (map_of obj key)"
  by (simp add: property_def plain_key_def split: option.splits)

lemma property_own: "map_of obj key = Some v \<Longrightarrow> property obj key = Some (Own v)"
  by (simp add: property_def)

lemma MIME_TO_RENDERER_keys: "map_of MIME_TO_RENDERER m = Some k \<Longrightarrow> m \<noteq> []"
  by (auto simp: MIME_TO_RENDERER_def split: if_splits)

lemma EXT_TO_MIME_mapped:
  "map_of EXT_TO_MIME e = Some m \<Longrightarrow> \<exists>k. property MIME_TO_RENDERER m = Some (Own k)"
  by (auto simp: EXT_TO_MIME_def MIME_TO_RENDERER_def property_def split: if_splits)

text \<open>An explicit MIME type that the table maps decides the selection.\<close>

lemma getRendererKey_explicit:
  assumes "map_of MIME_TO_RENDERER m = Some k"
  shows "getRendererKey pathnameOf src (Some m) enableOCR =
           \<lparr>rendererKey = withOCR enableOCR (Own k), mimeType = Some (Own m)\<rparr>"
  using assms MIME_TO_RENDERER_keys [OF assms]
  by (simp add: getRendererKey_def rendererOfMime_def property_own)

text \<open>Without an explicit MIME type, a blob is resolved by its declared type.\<close>

lemma getRendererKey_blob_type:
  assumes "map_of MIME_TO_RENDERER t = Some k"
  shows "getRendererKey pathnameOf (BlobSource t) None enableOCR =
           \<lparr>rendererKey = withOCR enableOCR (Own k), mimeType = Some (Own t)\<rparr>"
  using assms MIME_TO_RENDERER_keys [OF assms]
  by (simp add: getRendererKey_def rendererOfMime_def inferMimeType_def property_own)

text \<open>
  For keys that do not name a member of \<^verbatim>\<open>Object.prototype\<close> the result is a renderer
  key with a string or no MIME type, and when nothing maps it is the unsupported key
  with the resolved MIME type.
\<close>

lemma rendererOfMime_plain:
  assumes "case mimeTypeArg of Some m \<Rightarrow> plain_key m | None \<Rightarrow> True"
    and "case src of UrlSource url \<Rightarrow> plain_key (extensionOf pathnameOf url)
                   | BlobSource t \<Rightarrow> plain_key t"
  shows "rendererOfMime (case mimeTypeArg of Some m \<Rightarrow> Some (Own m)
                         | None \<Rightarrow> inferMimeType pathnameOf src) = Some key
         \<Longrightarrow> \<exists>k. key = Own k"
proof (cases mimeTypeArg)
  case (Some m)
  assume "rendererOfMime (case mimeTypeArg of Some m \<Rightarrow> Some (Own m)
                         | None \<Rightarrow> inferMimeType pathnameOf src) = Some key"
  with Some assms(1) show ?thesis
    by (auto simp: rendererOfMime_def property_plain split: if_splits)
next
  case None
  assume a: "rendererOfMime (case mimeTypeArg of Some m \<Rightarrow> Some (Own m)
                         | None \<Rightarrow> inferMimeType pathnameOf src) = Some key"
  show ?thesis
  proof (cases src)
    case (UrlSource url)
    with None a assms(2) obtain m where m: "map_of EXT_TO_MIME (extensionOf pathnameOf url) = Some m"
      "property MIME_TO_RENDERER m = Some key"
      by (auto simp: rendererOfMime_def inferMimeType_def property_plain Let_def
          split: if_splits option.splits member.splits)
    with EXT_TO_MIME_mapped [OF m(1)] show ?thesis by auto
  next
    case (BlobSource t)
    with None a assms(2) show ?thesis
      by (auto simp: rendererOfMime_def inferMimeType_def property_plain split: if_splits)
  qed
qed

lemma withOCR_Own: "\<exists>k'. withOCR enableOCR (Own k) = Own k'"
  by (simp add: withOCR_def)

lemma getRendererKey_plain:
  assumes "case mimeTypeArg of Some m \<Rightarrow> plain_key m | None \<Rightarrow> True"
    and "case src of UrlSource url \<Rightarrow> plain_key (extensionOf pathnameOf url)
                   | BlobSource t \<Rightarrow> plain_key t"
  shows "\<exists>k. rendererKey (getRendererKey pathnameOf src mimeTypeArg enableOCR) = Own k"
proof -
  let ?resolved = "case mimeTypeArg of Some m \<Rightarrow> Some (Own m)
      | None \<Rightarrow> inferMimeType pathnameOf src"
  show ?thesis
  proof (cases "rendererOfMime ?resolved")
    case (Some key)
    from rendererOfMime_plain [OF assms Some] obtain k where "key = Own k" by blast
    with Some withOCR_Own [of enableOCR k] show ?thesis
      by (auto simp: getRendererKey_def)
  next
    case None
    show ?thesis
    proof (cases src)
      case (UrlSource url)
      with None assms(2) withOCR_Own [of enableOCR] show ?thesis
        by (auto simp: getRendererKey_def property_plain Let_def split: option.splits)
    next
      case (BlobSource t)
      with None assms(2) withOCR_Own [of enableOCR] show ?thesis
        by (auto simp: getRendererKey_def property_plain split: option.splits)
    qed
  qed
qed

lemma getRendererKey_unsupported:
  assumes "case mimeTypeArg of Some m \<Rightarrow> plain_key m \<and> map_of MIME_TO_RENDERER m = None
                              | None \<Rightarrow> True"
    and "case src of
           UrlSource url \<Rightarrow> plain_key (extensionOf pathnameOf url)
             \<and> map_of EXT_TO_RENDERER (extensionOf pathnameOf url) = None
             \<and> map_of EXT_TO_MIME (extensionOf pathnameOf url) = None
         | BlobSource t \<Rightarrow> plain_key t \<and> map_of MIME_TO_RENDERER t = None"
  shows "getRendererKey pathnameOf src mimeTypeArg enableOCR =
           \<lparr>rendererKey = Own Unsupported,
            mimeType = (case mimeTypeArg of Some m \<Rightarrow> Some (Own m)
                        | None \<Rightarrow> inferMimeType pathnameOf src)\<rparr>"
  using assms
  by (cases src; cases mimeTypeArg)
     (auto simp: getRendererKey_def rendererOfMime_def inferMimeType_def property_plain
        Let_def split: option.splits member.splits if_splits)

text \<open>
  C3, where the code departs from it. The explicit MIME type \<^verbatim>\<open>"constructor"\<close>, and
  likewise a URL whose extension is \<^verbatim>\<open>constructor\<close>, is found in the tables as the
  member inherited from \<^verbatim>\<open>Object.prototype\<close>: the function returns that member in place
  of a renderer key, not the unsupported key. An extension that names nothing, such as
  \<^verbatim>\<open>xyz\<close>, yields the unsupported key.
\<close>

theorem getRendererKey_inherited_member:
  "getRendererKey pathnameOf (UrlSource ''a.pdf'') (Some ''constructor'') enableOCR =
     \<lparr>rendererKey = Inherited ''constructor'', mimeType = Some (Own ''constructor'')\<rparr>
   \<and> getRendererKey simple_pathname (UrlSource ''report.constructor'') None enableOCR =
     \<lparr>rendererKey = Inherited ''constructor'', mimeType = Some (Inherited ''constructor'')\<rparr>
   \<and> getRendererKey simple_pathname (UrlSource ''report.xyz'') None enableOCR =
     \<lparr>rendererKey = Own Unsupported, mimeType = None\<rparr>"
proof -
  have p: "property MIME_TO_RENDERER ''constructor'' = Some (Inherited ''constructor'')"
    "property EXT_TO_RENDERER ''constructor'' = Some (Inherited ''constructor'')"
    "property EXT_TO_MIME ''constructor'' = Some (Inherited ''constructor'')"
    "property EXT_TO_RENDERER ''xyz'' = None" "property EXT_TO_MIME ''xyz'' = None"
    by code_simp+
  have e: "extensionOf simple_pathname ''report.constructor'' = ''constructor''"
    "extensionOf simple_pathname ''report.xyz'' = ''xyz''"
    by code_simp+
  show ?thesis
    by (simp add: getRendererKey_def rendererOfMime_def inferMimeType_def withOCR_def p e Let_def)
qed

lemma getRendererKey_scenarios:
  "getRendererKey simple_pathname (UrlSource ''a.pdf'') None False =
     \<lparr>rendererKey = Own Pdf, mimeType = Some (Own ''application/pdf'')\<rparr>"
  "getRendererKey simple_pathname (UrlSource ''a.pdf'') None True =
     \<lparr>rendererKey = Own PdfOcr, mimeType = Some (Own ''application/pdf'')\<rparr>"
  by code_simp+

text \<open>The listener intercepts exactly the non-empty hrefs whose resolution has one of
  the three protocols.\<close>

lemma onClick_intercepts_iff:
  "onClick protocolOf target = OpenedInNewContext h \<longleftrightarrow>
     h \<noteq> [] \<and> target = Anchor (Some h)
     \<and> (\<exists>p. protocolOf h = Some p \<and> p \<in> set EXTERNAL_LINK_PROTOCOLS)"
  by (cases target)
     (auto simp: onClick_def isExternalLinkHref_def Let_def split: option.splits if_splits)

text \<open>
  C9, where the code departs from it. On a page served over https the fragment-only
  hrefs \<^verbatim>\<open>#\<close> and \<^verbatim>\<open>#page=3\<close> of document-internal anchors resolve against the page
  address to the protocol \<^verbatim>\<open>https:\<close>, so the listener suppresses the default action and
  opens them in a new browsing context.
\<close>

theorem internal_anchor_opened_in_new_context:
  "urlProtocol ''https://example.com/viewer'' ''#'' = Some ''https:''
   \<and> onClick (urlProtocol ''https://example.com/viewer'') (Anchor (Some ''#'')) =
       OpenedInNewContext ''#''
   \<and> onClick (urlProtocol ''https://example.com/viewer'') (Anchor (Some ''#page=3'')) =
       OpenedInNewContext ''#page=3''"
  by code_simp

lemma external_links_examples:
  "onClick (urlProtocol ''https://example.com/viewer'') (Anchor (Some ''mailto:a@example.com''))
     = OpenedInNewContext ''mailto:a@example.com''"
  "onClick (urlProtocol ''https://example.com/viewer'') (Anchor (Some ''ftp://example.com/f''))
     = DefaultNavigation"
  "onClick (urlProtocol ''https://example.com/viewer'') (Anchor None) = DefaultNavigation"
  "onClick (urlProtocol ''file:///home/u/viewer.html'') (Anchor (Some ''#'')) = DefaultNavigation"
  by code_simp+

end
